theory Spec2Isabelle
  imports
    Complex_Main
    "HOL-Library.AList"
    "HOL-Library.Char_ord"
    "HOL-Library.List_Lexorder"
    "HOL-Library.Product_Lexorder"
begin

section \<open>The autocomplete trie of \<^verbatim>\<open>src/trie.py\<close>\<close>

text \<open>
  The embedding follows the Python source function by function.

  \<^item> A \<^verbatim>\<open>TrieNode\<close> has the three slots \<^verbatim>\<open>children\<close>, \<^verbatim>\<open>is_word\<close> and \<^verbatim>\<open>freq\<close>.
    The \<^verbatim>\<open>children\<close> dict is an association list in insertion order: a Python dict is
    an insertion-ordered table with unique keys. \<^verbatim>\<open>c in d\<close> and \<^verbatim>\<open>d[c]\<close> are
    \<open>map_of\<close>, \<^verbatim>\<open>d[c] = v\<close> is \<open>AList.update\<close> (in place for an old key, at the end for
    a new one), \<^verbatim>\<open>del d[c]\<close> is \<open>AList.delete\<close>, \<^verbatim>\<open>not d\<close> is \<open>d = []\<close>.
    That the keys of a dict are unique is the predicate \<open>wf_node\<close> below.
  \<^item> Symbols are \<open>char\<close>, words are \<open>string\<close>; strings compare lexicographically by
    character code, as Python's do.
  \<^item> Frequencies are Python floats: the type \<open>pyfloat\<close> below, a real number, one of
    the two infinities, or NaN. The code only stores, negates and compares them, so
    rounding plays no part; the two signed zeros compare equal and are one value here.
  \<^item> The counters \<^verbatim>\<open>_words\<close> and \<^verbatim>\<open>_nodes\<close> are unbounded Python integers: \<open>int\<close>.
  \<^item> Nodes are owned by exactly one parent and never aliased, so in-place mutation of a
    node is modelled by returning the updated node to the parent, which stores it back
    under the same key.
  \<^item> The recursive functions of the source recurse once per symbol or per level of the
    tree; the interpreter's recursion limit is a resource bound outside the model.
\<close>

subsection \<open>Data\<close>

text \<open>
  A Python float with the comparisons \<^verbatim>\<open><\<close> and \<^verbatim>\<open>==\<close> and the negation of IEEE 754:
  NaN is neither less than, nor greater than, nor equal to anything, itself included.
\<close>

datatype pyfloat = Fin real | PInf | NInf | NaN

fun float_lt :: "pyfloat \<Rightarrow> pyfloat \<Rightarrow> bool" where
  "float_lt NaN b = False"
| "float_lt a NaN = False"
| "float_lt (Fin x) (Fin y) = (x < y)"
| "float_lt (Fin x) PInf = True"
| "float_lt (Fin x) NInf = False"
| "float_lt PInf b = False"
| "float_lt NInf NInf = False"
| "float_lt NInf b = True"

definition float_eq :: "pyfloat \<Rightarrow> pyfloat \<Rightarrow> bool" where
  "float_eq a b = (a \<noteq> NaN \<and> b \<noteq> NaN \<and> a = b)"

fun float_neg :: "pyfloat \<Rightarrow> pyfloat" where
  "float_neg (Fin x) = Fin (- x)"
| "float_neg PInf = NInf"
| "float_neg NInf = PInf"
| "float_neg NaN = NaN"

datatype TrieNode =
  TrieNode (children: "(char \<times> TrieNode) list") (is_word: bool) (freq: pyfloat)

record Trie =
  root :: TrieNode
  words :: int
  nodes :: int

text \<open>\<^verbatim>\<open>TrieNode.__init__\<close> and \<^verbatim>\<open>Trie.__init__\<close>.\<close>

definition new_node :: TrieNode where
  "new_node = TrieNode [] False (Fin 0)"

definition new_trie :: Trie where
  "new_trie = \<lparr>root = new_node, words = 0, nodes = 1\<rparr>"

lemma size_child [termination_simp]:
  "(c, child) \<in> set (children node) \<Longrightarrow> size child < size node"
proof (cases node)
  case (TrieNode cs w f)
  assume "(c, child) \<in> set (children node)"
  then have "(c, child) \<in> set cs"
    using TrieNode by simp
  then have "size child < Suc (size_list (size_prod (\<lambda>x. 0) size) cs)"
    by (induction cs) auto
  then show ?thesis
    using TrieNode by simp
qed

subsection \<open>insert\<close>

text \<open>
  The loop of \<^verbatim>\<open>insert\<close> walks down from \<open>node\<close> along the rest of the word, creating
  a node (and counting it in \<^verbatim>\<open>_nodes\<close>) for every missing symbol; at the end of the word
  it counts the word in \<^verbatim>\<open>_words\<close> if the node was not a word, sets \<^verbatim>\<open>is_word\<close> and
  overwrites \<^verbatim>\<open>freq\<close>. The pair of integers is \<^verbatim>\<open>(self._words, self._nodes)\<close>.
\<close>

fun insert_walk :: "TrieNode \<Rightarrow> string \<Rightarrow> pyfloat \<Rightarrow> int \<times> int \<Rightarrow> TrieNode \<times> int \<times> int" where
  "insert_walk node [] fr (ws, ns) =
     (TrieNode (children node) True fr, (if \<not> is_word node then ws + 1 else ws), ns)"
| "insert_walk node (char # rest) fr (ws, ns) =
     (case map_of (children node) char of
        None \<Rightarrow>
          (case insert_walk new_node rest fr (ws, ns + 1) of
             (child', ws', ns') \<Rightarrow>
               (TrieNode (AList.update char child' (children node)) (is_word node) (freq node),
                ws', ns'))
      | Some child \<Rightarrow>
          (case insert_walk child rest fr (ws, ns) of
             (child', ws', ns') \<Rightarrow>
               (TrieNode (AList.update char child' (children node)) (is_word node) (freq node),
                ws', ns')))"

definition insert_word :: "Trie \<Rightarrow> string \<Rightarrow> pyfloat \<Rightarrow> Trie" where
  "insert_word t word fr =
     (case insert_walk (root t) word fr (words t, nodes t) of
        (root', ws', ns') \<Rightarrow> \<lparr>root = root', words = ws', nodes = ns'\<rparr>)"

subsection \<open>remove\<close>

text \<open>
  The inner function \<^verbatim>\<open>_remove(node, word, index)\<close>. The pair \<^verbatim>\<open>(word, index)\<close> is
  represented by the symbols still to be consumed, \<^verbatim>\<open>word[index:]\<close>, so that
  \<^verbatim>\<open>index == len(word)\<close> is the empty remainder. The result is the returned boolean
  (the signal \<^verbatim>\<open>should_delete\<close> for the caller), the node after the call, and the
  two counters after the call.
\<close>

fun remove_rec :: "TrieNode \<Rightarrow> string \<Rightarrow> int \<times> int \<Rightarrow> bool \<times> TrieNode \<times> int \<times> int" where
  "remove_rec node [] (ws, ns) =
     (if is_word node
      then (children node = [], TrieNode (children node) False (freq node), ws - 1, ns)
      else (False, node, ws, ns))"
| "remove_rec node (char # rest) (ws, ns) =
     (case map_of (children node) char of
        None \<Rightarrow> (False, node, ws, ns)
      | Some child \<Rightarrow>
          (case remove_rec child rest (ws, ns) of
             (should_delete, child', ws', ns') \<Rightarrow>
               if should_delete
               then (AList.delete char (children node) = [] \<and> \<not> is_word node,
                     TrieNode (AList.delete char (children node)) (is_word node) (freq node),
                     ws', ns' - 1)
               else (False,
                     TrieNode (AList.update char child' (children node)) (is_word node) (freq node),
                     ws', ns')))"

text \<open>
  \<^verbatim>\<open>remove\<close> returns what \<^verbatim>\<open>_remove(self.root, word, 0)\<close> returns; the root itself
  has no parent and stays.
\<close>

definition remove :: "Trie \<Rightarrow> string \<Rightarrow> bool \<times> Trie" where
  "remove t word =
     (case remove_rec (root t) word (words t, nodes t) of
        (r, root', ws', ns') \<Rightarrow> (r, \<lparr>root = root', words = ws', nodes = ns'\<rparr>))"

subsection \<open>contains\<close>

fun contains_from :: "TrieNode \<Rightarrow> string \<Rightarrow> bool" where
  "contains_from node [] = is_word node"
| "contains_from node (char # rest) =
     (case map_of (children node) char of
        None \<Rightarrow> False
      | Some child \<Rightarrow> contains_from child rest)"

definition contains :: "Trie \<Rightarrow> string \<Rightarrow> bool" where
  "contains t word = contains_from (root t) word"

subsection \<open>complete\<close>

text \<open>
  The first loop of \<^verbatim>\<open>complete\<close> finds the node of the prefix; \<open>None\<close> is the early
  \<^verbatim>\<open>return []\<close>.
\<close>

fun find_node :: "TrieNode \<Rightarrow> string \<Rightarrow> TrieNode option" where
  "find_node node [] = Some node"
| "find_node node (char # rest) =
     (case map_of (children node) char of
        None \<Rightarrow> None
      | Some child \<Rightarrow> find_node child rest)"

text \<open>
  The inner function \<^verbatim>\<open>collect(node, path)\<close> appends to \<^verbatim>\<open>candidates\<close>; the model
  returns what it appends, in order.
\<close>

function collect :: "TrieNode \<Rightarrow> string \<Rightarrow> (pyfloat \<times> string) list" where
  "collect node path =
     (if is_word node then [(freq node, path)] else []) @
     concat (map (\<lambda>char. case map_of (children node) char of
                            None \<Rightarrow> []
                          | Some child \<Rightarrow> collect child (path @ [char]))
                 (sort (map fst (children node))))"
  by pat_completeness auto
termination
  by (relation "measure (\<lambda>(n, p). size n)") (auto dest!: map_of_SomeD size_child)

declare collect.simps [simp del]

text \<open>
  The slice \<^verbatim>\<open>xs[:k]\<close> of Python: a negative \<open>k\<close> counts from the end, and the bound
  is clamped to the list.
\<close>

definition slice_upto :: "'a list \<Rightarrow> int \<Rightarrow> 'a list" where
  "slice_upto xs k = take (nat (if k < 0 then int (length xs) + k else k)) xs"

text \<open>
  \<^verbatim>\<open>candidates.sort(key=lambda x: (-x[0], x[1]))\<close>. The keys are pairs of a float and a
  string, and \<^verbatim>\<open>list.sort\<close> compares them with \<^verbatim>\<open><\<close> only. On tuples \<^verbatim>\<open><\<close> looks for
  the first position where the two differ by \<^verbatim>\<open>==\<close> and compares there; the floats of
  two keys are always two objects, so \<^verbatim>\<open>==\<close> is the float comparison.
\<close>

definition sort_key_of :: "pyfloat \<times> string \<Rightarrow> pyfloat \<times> string" where
  "sort_key_of x = (float_neg (fst x), snd x)"

definition tuple_lt :: "pyfloat \<times> string \<Rightarrow> pyfloat \<times> string \<Rightarrow> bool" where
  "tuple_lt a b = (if float_eq (fst a) (fst b) then snd a < snd b else float_lt (fst a) (fst b))"

definition candidate_lt :: "pyfloat \<times> string \<Rightarrow> pyfloat \<times> string \<Rightarrow> bool" where
  "candidate_lt x y = tuple_lt (sort_key_of x) (sort_key_of y)"

text \<open>
  \<^verbatim>\<open>list.sort\<close> itself is CPython's \<^verbatim>\<open>listsort\<close>. It first measures the run at the start
  of the list (\<^verbatim>\<open>count_run\<close>): ascending while no item is less than the one before it,
  or strictly descending, and then reversed in place. It then inserts the remaining
  items one by one into the sorted part, at the place a binary search finds
  (\<^verbatim>\<open>binarysort\<close>). A list of fewer than 64 items is sorted by exactly these two steps.
  A longer list is cut into such runs, which are merged; that gives the same list
  whenever \<^verbatim>\<open><\<close> is a strict total order on the keys, the result of a stable sort
  being unique then. The model takes the two steps for a list of any length, as
  CPython does up to version 3.12; later versions measure the runs in another way, again
  with the same result where \<^verbatim>\<open><\<close> is a strict total order on the keys.
\<close>

fun count_asc :: "('a \<Rightarrow> 'a \<Rightarrow> bool) \<Rightarrow> 'a \<Rightarrow> 'a list \<Rightarrow> nat" where
  "count_asc lt prev [] = 0"
| "count_asc lt prev (x # xs) = (if lt x prev then 0 else Suc (count_asc lt x xs))"

fun count_desc :: "('a \<Rightarrow> 'a \<Rightarrow> bool) \<Rightarrow> 'a \<Rightarrow> 'a list \<Rightarrow> nat" where
  "count_desc lt prev [] = 0"
| "count_desc lt prev (x # xs) = (if lt x prev then Suc (count_desc lt x xs) else 0)"

text \<open>The length of the first run, and whether it is a descending one.\<close>

fun count_run :: "('a \<Rightarrow> 'a \<Rightarrow> bool) \<Rightarrow> 'a list \<Rightarrow> nat \<times> bool" where
  "count_run lt [] = (0, False)"
| "count_run lt [x] = (1, False)"
| "count_run lt (x0 # x1 # rest) =
     (if lt x1 x0 then (2 + count_desc lt x1 rest, True)
      else (2 + count_asc lt x1 rest, False))"

text \<open>
  The binary search of \<^verbatim>\<open>binarysort\<close> for the place of \<open>pivot\<close> in \<open>a[l:r]\<close>:
  \<^verbatim>\<open>p = l + ((r - l) >> 1); if pivot < a[p]: r = p; else: l = p + 1\<close>.
  It is called with \<open>r\<close> the length of \<open>a\<close>, so the index \<open>p\<close> is always in range.
\<close>

function bisect :: "('a \<Rightarrow> 'a \<Rightarrow> bool) \<Rightarrow> 'a \<Rightarrow> 'a list \<Rightarrow> nat \<Rightarrow> nat \<Rightarrow> nat" where
  "bisect lt pivot a l r =
     (if l < r
      then (if lt pivot (a ! (l + (r - l) div 2))
            then bisect lt pivot a l (l + (r - l) div 2)
            else bisect lt pivot a (l + (r - l) div 2 + 1) r)
      else l)"
  by pat_completeness auto
termination
  by (relation "measure (\<lambda>(lt, pivot, a, l, r). r - l)") auto

declare bisect.simps [simp del]

text \<open>
  The loop of \<^verbatim>\<open>binarysort\<close>: \<open>done\<close> is the sorted part of the list so far, the
  second list what is still to be inserted, from the left.
\<close>

fun binarysort :: "('a \<Rightarrow> 'a \<Rightarrow> bool) \<Rightarrow> 'a list \<Rightarrow> 'a list \<Rightarrow> 'a list" where
  "binarysort lt done [] = done"
| "binarysort lt done (pivot # rest) =
     (let l = bisect lt pivot done 0 (length done)
      in binarysort lt (take l done @ [pivot] @ drop l done) rest)"

definition list_sort :: "('a \<Rightarrow> 'a \<Rightarrow> bool) \<Rightarrow> 'a list \<Rightarrow> 'a list" where
  "list_sort lt xs =
     (if length xs < 2 then xs
      else (case count_run lt xs of
              (n, descending) \<Rightarrow>
                binarysort lt (if descending then rev (take n xs) else take n xs) (drop n xs)))"

definition sort_candidates :: "(pyfloat \<times> string) list \<Rightarrow> (pyfloat \<times> string) list" where
  "sort_candidates candidates = list_sort candidate_lt candidates"

definition complete_words :: "Trie \<Rightarrow> string \<Rightarrow> int \<Rightarrow> string list" where
  "complete_words t prefix k =
     (case find_node (root t) prefix of
        None \<Rightarrow> []
      | Some node \<Rightarrow> map snd (slice_upto (sort_candidates (collect node prefix)) k))"

subsection \<open>stats\<close>

fun get_height :: "TrieNode \<Rightarrow> int" where
  "get_height node =
     (if children node = [] then 0
      else 1 + Max (set (map get_height (map snd (children node)))))"

declare get_height.simps [simp del]

definition stats :: "Trie \<Rightarrow> int \<times> int \<times> int" where
  "stats t = (words t, get_height (root t), nodes t)"

subsection \<open>Observations used to state the properties\<close>

text \<open>
  The keys of a Python dict are unique. In the association-list model this is a
  predicate on nodes, which holds of every node the operations build.
\<close>

lemma size_child_list [termination_simp]:
  "(c, child) \<in> set cs \<Longrightarrow> size child < Suc (size_list (size_prod (\<lambda>x. 0) size) cs)"
  by (induction cs) auto

fun wf_node :: "TrieNode \<Rightarrow> bool" where
  "wf_node (TrieNode cs w f) =
     (distinct (map fst cs) \<and> (\<forall>(c, child) \<in> set cs. wf_node child))"

text \<open>
  No dead leaves: every node below \<open>node\<close> is a word or has a child.
  The node itself (the root, at top level) is exempt.
\<close>

fun no_dead :: "TrieNode \<Rightarrow> bool" where
  "no_dead (TrieNode cs w f) =
     (\<forall>(c, child) \<in> set cs. (is_word child \<or> children child \<noteq> []) \<and> no_dead child)"

text \<open>The number of nodes of the tree at \<open>node\<close> (itself included), and of its word nodes.\<close>

fun count_nodes :: "TrieNode \<Rightarrow> nat" where
  "count_nodes (TrieNode cs w f) = 1 + sum_list (map (\<lambda>(c, child). count_nodes child) cs)"

fun count_words :: "TrieNode \<Rightarrow> nat" where
  "count_words (TrieNode cs w f) =
     (if w then 1 else 0) + sum_list (map (\<lambda>(c, child). count_words child) cs)"

text \<open>
  The weight stored for a word is the \<^verbatim>\<open>freq\<close> slot of the node its path leads to
  (\<open>0.0\<close> when the path breaks; the value matters only for stored words).
\<close>

definition weight_of :: "Trie \<Rightarrow> string \<Rightarrow> pyfloat" where
  "weight_of t word = (case find_node (root t) word of None \<Rightarrow> Fin 0 | Some node \<Rightarrow> freq node)"

definition starts_with :: "string \<Rightarrow> string \<Rightarrow> bool" where
  "starts_with word prefix = (take (length prefix) word = prefix)"

text \<open>The ranked candidate list of \<^verbatim>\<open>complete\<close>, before the slice \<^verbatim>\<open>[:k]\<close>.\<close>

definition ranking :: "Trie \<Rightarrow> string \<Rightarrow> string list" where
  "ranking t prefix =
     (case find_node (root t) prefix of
        None \<Rightarrow> []
      | Some node \<Rightarrow> map snd (sort_candidates (collect node prefix)))"

text \<open>
  \<open>outranks t a b\<close>: word \<open>a\<close> comes before word \<open>b\<close> in the order of the
  specification, weight descending and then word ascending.
\<close>

definition outranks :: "Trie \<Rightarrow> string \<Rightarrow> string \<Rightarrow> bool" where
  "outranks t a b =
     (float_lt (weight_of t b) (weight_of t a) \<or>
      (float_eq (weight_of t a) (weight_of t b) \<and> a < b))"

text \<open>
  For the proofs: the floats that are not NaN, and with them the sort keys of the
  candidates, embedded in a linear order.
\<close>

fun float_rank :: "pyfloat \<Rightarrow> int \<times> real" where
  "float_rank NInf = (- 1, 0)"
| "float_rank (Fin x) = (0, x)"
| "float_rank PInf = (1, 0)"
| "float_rank NaN = (2, 0)"

definition cand_key :: "pyfloat \<times> string \<Rightarrow> (int \<times> real) \<times> string" where
  "cand_key x = (float_rank (float_neg (fst x)), snd x)"

text \<open>The states reachable from the empty trie by \<^verbatim>\<open>insert\<close> and \<^verbatim>\<open>remove\<close>.\<close>

inductive reachable :: "Trie \<Rightarrow> bool" where
  reach_new: "reachable new_trie"
| reach_insert: "reachable t \<Longrightarrow> reachable (insert_word t word fr)"
| reach_remove: "reachable t \<Longrightarrow> reachable (snd (remove t word))"

text \<open>The invariant of the data model: unique keys, no dead leaves, and both counters exact.\<close>

definition trie_inv :: "Trie \<Rightarrow> bool" where
  "trie_inv t \<longleftrightarrow>
     wf_node (root t) \<and> no_dead (root t) \<and>
     nodes t = int (count_nodes (root t)) \<and> words t = int (count_words (root t))"

section \<open>Auxiliary facts\<close>

lemma TrieNode_induct [case_names Node]:
  assumes "\<And>cs w f. (\<And>c child. (c, child) \<in> set cs \<Longrightarrow> P child) \<Longrightarrow> P (TrieNode cs w f)"
  shows "P node"
  using assms by (induction node) (auto simp: snds.simps)

subsection \<open>Association lists\<close>

lemma delete_update_fresh: "map_of cs c = None \<Longrightarrow> AList.delete c (AList.update c v cs) = cs"
  by (induction cs) (auto split: if_splits)

lemma set_update_subset: "set (AList.update c v cs) \<subseteq> insert (c, v) (set cs)"
  by (induction cs) auto

lemma sum_update_None:
  fixes g :: "'v \<Rightarrow> nat"
  shows "map_of cs c = None \<Longrightarrow>
     (\<Sum>(k, x)\<leftarrow>AList.update c v cs. g x) = (\<Sum>(k, x)\<leftarrow>cs. g x) + g v"
  by (induction cs) (auto split: if_splits)

lemma sum_update_Some:
  fixes g :: "'v \<Rightarrow> nat"
  shows "map_of cs c = Some old \<Longrightarrow>
     (\<Sum>(k, x)\<leftarrow>AList.update c v cs. g x) + g old = (\<Sum>(k, x)\<leftarrow>cs. g x) + g v"
  by (induction cs) (auto split: if_splits)

lemma sum_delete_Some:
  fixes g :: "'v \<Rightarrow> nat"
  shows "distinct (map fst cs) \<Longrightarrow> map_of cs c = Some old \<Longrightarrow>
     (\<Sum>(k, x)\<leftarrow>AList.delete c cs. g x) + g old = (\<Sum>(k, x)\<leftarrow>cs. g x)"
proof (induction cs)
  case Nil
  then show ?case by simp
next
  case (Cons a cs)
  show ?case
  proof (cases "fst a = c")
    case True
    then have "c \<notin> fst ` set cs" using Cons.prems by auto
    then have "AList.delete c cs = cs" by (simp add: delete_id)
    then show ?thesis using True Cons.prems by (cases a) auto
  next
    case False
    then show ?thesis using Cons by (cases a) (auto simp: AList.delete_eq)
  qed
qed

subsection \<open>Paths\<close>

lemma node_collapse: "TrieNode (children node) (is_word node) (freq node) = node"
  by (cases node) simp

lemma contains_from_find:
  "contains_from node w = (case find_node node w of None \<Rightarrow> False | Some n \<Rightarrow> is_word n)"
  by (induction w arbitrary: node) (auto split: option.splits)

lemma find_node_append:
  "find_node node (p @ w) = (case find_node node p of None \<Rightarrow> None | Some n \<Rightarrow> find_node n w)"
  by (induction p arbitrary: node) (auto split: option.splits)

lemma contains_from_leaf: "children node = [] \<Longrightarrow> \<not> is_word node \<Longrightarrow> \<not> contains_from node w"
  by (cases w) auto

subsection \<open>What remove returns and what it leaves alone\<close>

lemma remove_rec_absent:
  "\<not> contains_from node w \<Longrightarrow> remove_rec node w (ws, ns) = (False, node, ws, ns)"
proof (induction w arbitrary: node)
  case Nil
  then show ?case by simp
next
  case (Cons c rest)
  show ?case
  proof (cases "map_of (children node) c")
    case None
    then show ?thesis by simp
  next
    case (Some child)
    then have "\<not> contains_from child rest"
      using Cons.prems by simp
    then have "remove_rec child rest (ws, ns) = (False, child, ws, ns)"
      by (rule Cons.IH)
    then show ?thesis
      using Some by (simp add: update_triv node_collapse)
  qed
qed

text \<open>What the returned signal means, and that the word is gone afterwards.\<close>

lemma remove_rec_signal:
  "remove_rec node w (ws, ns) = (sd, node', ws', ns') \<Longrightarrow>
     (sd \<longleftrightarrow> contains_from node w \<and> children node' = [] \<and> \<not> is_word node')
     \<and> \<not> contains_from node' w"
proof (induction w arbitrary: node sd node' ws' ns')
  case Nil
  then show ?case by (auto split: if_splits)
next
  case (Cons c rest)
  show ?case
  proof (cases "map_of (children node) c")
    case None
    then show ?thesis using Cons.prems by auto
  next
    case (Some child)
    obtain sdc child' wsc nsc where r: "remove_rec child rest (ws, ns) = (sdc, child', wsc, nsc)"
      by (metis prod_cases4)
    note ih = Cons.IH [OF r]
    show ?thesis
    proof (cases sdc)
      case True
      then show ?thesis
        using Cons.prems Some r ih by (auto simp: delete_conv')
    next
      case False
      then show ?thesis
        using Cons.prems Some r ih by (auto simp: update_conv')
    qed
  qed
qed

lemma set_delete_subset: "set (AList.delete c cs) \<subseteq> set cs"
  by (auto simp: AList.delete_eq)

lemma remove_rec_step:
  assumes "remove_rec node (c # rest) (ws, ns) = (sd, node', ws', ns')"
    and "map_of (children node) c = Some child"
    and "remove_rec child rest (ws, ns) = (sdc, child', wsc, nsc)"
  shows "children node' =
           (if sdc then AList.delete c (children node) else AList.update c child' (children node))"
    and "is_word node' = is_word node" and "freq node' = freq node"
    and "sd = (sdc \<and> AList.delete c (children node) = [] \<and> \<not> is_word node)"
    and "ws' = wsc" and "ns' = (if sdc then nsc - 1 else nsc)"
  using assms by (auto split: if_splits)

lemma remove_rec_frame:
  "remove_rec node w (ws, ns) = (sd, node', ws', ns') \<Longrightarrow> w' \<noteq> w \<Longrightarrow>
     contains_from node' w' = contains_from node w' \<and>
     (contains_from node w' \<longrightarrow>
        map_option freq (find_node node' w') = map_option freq (find_node node w'))"
proof (induction w arbitrary: node sd node' ws' ns' w')
  case Nil
  then obtain c' r' where "w' = c' # r'" by (cases w') auto
  then show ?case using Nil by (auto split: if_splits)
next
  case (Cons c rest)
  show ?case
  proof (cases "map_of (children node) c")
    case None
    then show ?thesis using Cons.prems by auto
  next
    case (Some child)
    obtain sdc child' wsc nsc where r: "remove_rec child rest (ws, ns) = (sdc, child', wsc, nsc)"
      by (metis prod_cases4)
    note sig = remove_rec_signal [OF r]
    note step = remove_rec_step [OF Cons.prems(1) Some r]
    show ?thesis
    proof (cases w')
      case Nil
      then show ?thesis using step by simp
    next
      case w': (Cons c' r')
      show ?thesis
      proof (cases "c' = c")
        case False
        then have "map_of (children node') c' = map_of (children node) c'"
          using step(1) by (simp add: update_conv' delete_conv')
        then show ?thesis
          using w' by simp
      next
        case True
        then have ne: "r' \<noteq> rest" using Cons.prems w' by simp
        note ih = Cons.IH [OF r ne]
        show ?thesis
        proof (cases sdc)
          case sdc: True
          then have "\<not> contains_from child' r'"
            using sig by (simp add: contains_from_leaf)
          then have "\<not> contains_from child r'" using ih by simp
          moreover have "map_of (children node') c = None"
            using step(1) sdc by (simp add: delete_conv')
          ultimately show ?thesis
            using Some w' True by simp
        next
          case False
          then have "map_of (children node') c = Some child'"
            using step(1) by (simp add: update_conv')
          then show ?thesis
            using Some w' ih True by simp
        qed
      qed
    qed
  qed
qed

subsection \<open>What insert stores\<close>

lemma insert_walk_result:
  "insert_walk node w fr (ws, ns) = (node', ws', ns') \<Longrightarrow>
     contains_from node' w \<and> map_option freq (find_node node' w) = Some fr \<and>
     ws' = ws + (if contains_from node w then 0 else 1)"
proof (induction w arbitrary: node node' ws' ns' ns)
  case Nil
  then show ?case by auto
next
  case (Cons c rest)
  show ?case
  proof (cases "map_of (children node) c")
    case None
    obtain child' wsc nsc where r: "insert_walk new_node rest fr (ws, ns + 1) = (child', wsc, nsc)"
      by (metis prod_cases3)
    have "\<not> contains_from new_node rest"
      by (simp add: contains_from_leaf new_node_def)
    then show ?thesis
      using Cons.prems None r Cons.IH [OF r] by (auto simp: update_conv')
  next
    case (Some child)
    obtain child' wsc nsc where r: "insert_walk child rest fr (ws, ns) = (child', wsc, nsc)"
      by (metis prod_cases3)
    show ?thesis
      using Cons.prems Some r Cons.IH [OF r] by (auto simp: update_conv')
  qed
qed

subsection \<open>The invariant is preserved\<close>

lemma wf_node_sel:
  "wf_node node = (distinct (map fst (children node)) \<and> (\<forall>(c, child) \<in> set (children node). wf_node child))"
  by (cases node) simp

lemma no_dead_sel:
  "no_dead node =
     (\<forall>(c, child) \<in> set (children node). (is_word child \<or> children child \<noteq> []) \<and> no_dead child)"
  by (cases node) simp

lemma count_nodes_sel:
  "count_nodes node = 1 + (\<Sum>(c, child)\<leftarrow>children node. count_nodes child)"
  by (cases node) simp

lemma count_words_sel:
  "count_words node = (if is_word node then 1 else 0) + (\<Sum>(c, child)\<leftarrow>children node. count_words child)"
  by (cases node) simp

lemma count_nodes_pos: "1 \<le> count_nodes node"
  by (cases node) simp

lemma insert_walk_step:
  assumes "insert_walk node (c # rest) fr (ws, ns) = (node', ws', ns')"
  obtains child' where
    "insert_walk (case map_of (children node) c of None \<Rightarrow> new_node | Some ch \<Rightarrow> ch) rest fr
       (ws, (if map_of (children node) c = None then ns + 1 else ns)) = (child', ws', ns')"
    "node' = TrieNode (AList.update c child' (children node)) (is_word node) (freq node)"
  using assms by (auto split: option.splits prod.splits)

lemma insert_walk_inv:
  "insert_walk node w fr (ws, ns) = (node', ws', ns') \<Longrightarrow>
     (wf_node node \<longrightarrow> wf_node node') \<and> (no_dead node \<longrightarrow> no_dead node') \<and>
     (is_word node' \<or> children node' \<noteq> []) \<and>
     ns' + int (count_nodes node) = ns + int (count_nodes node') \<and>
     ws' + int (count_words node) = ws + int (count_words node')"
proof (induction w arbitrary: node node' ws' ns' ns)
  case Nil
  then show ?case
    by (cases node) auto
next
  case (Cons c rest)
  define child0 where "child0 = (case map_of (children node) c of None \<Rightarrow> new_node | Some ch \<Rightarrow> ch)"
  define ns0 where "ns0 = (if map_of (children node) c = None then ns + 1 else ns)"
  from Cons.prems obtain child' where
    r: "insert_walk child0 rest fr (ws, ns0) = (child', ws', ns')" and
    n': "node' = TrieNode (AList.update c child' (children node)) (is_word node) (freq node)"
    unfolding child0_def ns0_def by (rule insert_walk_step)
  note ih = Cons.IH [OF r]
  have sub: "set (children node') \<subseteq> insert (c, child') (set (children node))"
    using n' by (simp add: set_update_subset)
  have child0_wf: "wf_node node \<Longrightarrow> wf_node child0"
    unfolding child0_def
    by (auto simp: new_node_def wf_node_sel [of node] split: option.splits dest!: map_of_SomeD)
  have child0_nd: "no_dead node \<Longrightarrow> no_dead child0"
    unfolding child0_def
    by (auto simp: new_node_def no_dead_sel [of node] split: option.splits dest!: map_of_SomeD)
  have wf: "wf_node node \<longrightarrow> wf_node node'"
  proof
    assume w: "wf_node node"
    then have "wf_node child'" using ih child0_wf by simp
    moreover have "distinct (map fst (children node'))"
      using w n' by (simp add: distinct_update wf_node_sel [of node])
    moreover have "\<forall>(k, ch) \<in> set (children node). wf_node ch"
      using w by (simp add: wf_node_sel [of node])
    ultimately show "wf_node node'"
      using sub by (subst wf_node_sel) auto
  qed
  have nd: "no_dead node \<longrightarrow> no_dead node'"
  proof
    assume w: "no_dead node"
    then have "no_dead child'" "is_word child' \<or> children child' \<noteq> []"
      using ih child0_nd by simp_all
    moreover have "\<forall>(k, ch) \<in> set (children node). (is_word ch \<or> children ch \<noteq> []) \<and> no_dead ch"
      using w by (simp add: no_dead_sel [of node])
    ultimately show "no_dead node'"
      using sub by (subst no_dead_sel) auto
  qed
  have live: "is_word node' \<or> children node' \<noteq> []"
    using n' by simp
  have cn: "ns' + int (count_nodes node) = ns + int (count_nodes node')"
  proof (cases "map_of (children node) c")
    case None
    then have "int (count_nodes node') = int (count_nodes node) + int (count_nodes child')"
      using n' by (simp add: sum_update_None count_nodes_sel [of node])
    moreover have "ns' + 1 = ns + 1 + int (count_nodes child')"
      using ih None by (simp add: child0_def ns0_def new_node_def)
    ultimately show ?thesis by simp
  next
    case (Some ch)
    then have "count_nodes node' + count_nodes ch = count_nodes node + count_nodes child'"
      using n' sum_update_Some [OF Some, of count_nodes child']
      by (simp add: count_nodes_sel [of node])
    then have "int (count_nodes node') + int (count_nodes ch) = int (count_nodes node) + int (count_nodes child')"
      by (metis of_nat_add)
    moreover have "ns' + int (count_nodes ch) = ns + int (count_nodes child')"
      using ih Some by (simp add: child0_def ns0_def)
    ultimately show ?thesis by simp
  qed
  have cw: "ws' + int (count_words node) = ws + int (count_words node')"
  proof (cases "map_of (children node) c")
    case None
    then have "int (count_words node') = int (count_words node) + int (count_words child')"
      using n' by (simp add: sum_update_None count_words_sel [of node])
    moreover have "ws' = ws + int (count_words child')"
      using ih None by (simp add: child0_def ns0_def new_node_def)
    ultimately show ?thesis by simp
  next
    case (Some ch)
    then have "count_words node' + count_words ch = count_words node + count_words child'"
      using n' sum_update_Some [OF Some, of count_words child']
      by (simp add: count_words_sel [of node])
    then have "int (count_words node') + int (count_words ch) = int (count_words node) + int (count_words child')"
      by (metis of_nat_add)
    moreover have "ws' + int (count_words ch) = ws + int (count_words child')"
      using ih Some by (simp add: child0_def ns0_def)
    ultimately show ?thesis by simp
  qed
  show ?case
    using wf nd live cn cw by simp
qed

lemma remove_rec_inv:
  "remove_rec node w (ws, ns) = (sd, node', ws', ns') \<Longrightarrow> wf_node node \<Longrightarrow> no_dead node \<Longrightarrow>
     wf_node node' \<and> no_dead node' \<and>
     (\<not> sd \<longrightarrow> is_word node \<or> children node \<noteq> [] \<longrightarrow> is_word node' \<or> children node' \<noteq> []) \<and>
     ns' + int (count_nodes node) = ns + int (count_nodes node') \<and>
     ws' + int (count_words node) = ws + int (count_words node')"
proof (induction w arbitrary: node sd node' ws' ns')
  case Nil
  then show ?case
    by (cases node) (auto split: if_splits)
next
  case (Cons c rest)
  show ?case
  proof (cases "map_of (children node) c")
    case None
    then show ?thesis using Cons.prems by auto
  next
    case (Some child)
    obtain sdc child' wsc nsc where r: "remove_rec child rest (ws, ns) = (sdc, child', wsc, nsc)"
      by (metis prod_cases4)
    note sig = remove_rec_signal [OF r]
    note step = remove_rec_step [OF Cons.prems(1) Some r]
    have mem: "(c, child) \<in> set (children node)"
      using Some by (rule map_of_SomeD)
    have dist: "distinct (map fst (children node))"
      and all_wf: "\<forall>(k, ch) \<in> set (children node). wf_node ch"
      using Cons.prems(2) by (simp_all add: wf_node_sel [of node])
    have all_nd: "\<forall>(k, ch) \<in> set (children node). (is_word ch \<or> children ch \<noteq> []) \<and> no_dead ch"
      using Cons.prems(3) by (simp add: no_dead_sel [of node])
    have child_ok: "wf_node child" "no_dead child" "is_word child \<or> children child \<noteq> []"
      using mem all_wf all_nd by auto
    note ih = Cons.IH [OF r child_ok(1,2)]
    show ?thesis
    proof (cases sdc)
      case True
      then have ch: "children node' = AList.delete c (children node)"
        using step(1) by simp
      then have sub: "set (children node') \<subseteq> set (children node)"
        by (simp add: set_delete_subset)
      have wf: "wf_node node'"
        using sub all_wf dist ch by (subst wf_node_sel) (auto simp: distinct_delete)
      have nd: "no_dead node'"
        using sub all_nd by (subst no_dead_sel) auto
      have live: "\<not> sd \<longrightarrow> is_word node' \<or> children node' \<noteq> []"
        using step(2,4) ch True by auto
      have leaf: "count_nodes child' = 1" "count_words child' = 0"
        using sig True by (simp_all add: count_nodes_sel [of child'] count_words_sel [of child'])
      have "count_nodes node' + count_nodes child = count_nodes node"
        using sum_delete_Some [OF dist Some, of count_nodes] ch
        by (simp add: count_nodes_sel [of node] count_nodes_sel [of node'])
      then have "int (count_nodes node') + int (count_nodes child) = int (count_nodes node)"
        by (metis of_nat_add)
      moreover have "ns' + 1 = nsc" using step(6) True by simp
      ultimately have cn: "ns' + int (count_nodes node) = ns + int (count_nodes node')"
        using ih leaf by simp
      have "count_words node' + count_words child = count_words node"
        using sum_delete_Some [OF dist Some, of count_words] ch step(2)
        by (simp add: count_words_sel [of node] count_words_sel [of node'])
      then have "int (count_words node') + int (count_words child) = int (count_words node)"
        by (metis of_nat_add)
      then have cw: "ws' + int (count_words node) = ws + int (count_words node')"
        using ih leaf step(5) by simp
      show ?thesis using wf nd live cn cw by simp
    next
      case False
      then have ch: "children node' = AList.update c child' (children node)"
        using step(1) by simp
      then have sub: "set (children node') \<subseteq> insert (c, child') (set (children node))"
        by (simp add: set_update_subset)
      have child'_ok: "wf_node child'" "no_dead child'" "is_word child' \<or> children child' \<noteq> []"
        using ih child_ok(3) False by auto
      have wf: "wf_node node'"
        using sub all_wf dist ch child'_ok(1) by (subst wf_node_sel) (auto simp: distinct_update)
      have nd: "no_dead node'"
        using sub all_nd child'_ok(2,3) by (subst no_dead_sel) auto
      have live: "is_word node' \<or> children node' \<noteq> []"
        using ch by simp
      have "count_nodes node' + count_nodes child = count_nodes node + count_nodes child'"
        using sum_update_Some [OF Some, of count_nodes child'] ch
        by (simp add: count_nodes_sel [of node] count_nodes_sel [of node'])
      then have "int (count_nodes node') + int (count_nodes child) = int (count_nodes node) + int (count_nodes child')"
        by (metis of_nat_add)
      then have cn: "ns' + int (count_nodes node) = ns + int (count_nodes node')"
        using ih step(6) False by simp
      have "count_words node' + count_words child = count_words node + count_words child'"
        using sum_update_Some [OF Some, of count_words child'] ch step(2)
        by (simp add: count_words_sel [of node] count_words_sel [of node'])
      then have "int (count_words node') + int (count_words child) = int (count_words node) + int (count_words child')"
        by (metis of_nat_add)
      then have cw: "ws' + int (count_words node) = ws + int (count_words node')"
        using ih step(5) by simp
      show ?thesis using wf nd live cn cw by simp
    qed
  qed
qed

lemma trie_inv_new: "trie_inv new_trie"
  by (simp add: trie_inv_def new_trie_def new_node_def)

lemma trie_inv_insert: "trie_inv t \<Longrightarrow> trie_inv (insert_word t w fr)"
proof -
  assume inv: "trie_inv t"
  obtain node' ws' ns' where r: "insert_walk (root t) w fr (words t, nodes t) = (node', ws', ns')"
    by (metis prod_cases3)
  show ?thesis
    using insert_walk_inv [OF r] inv r by (simp add: trie_inv_def insert_word_def)
qed

lemma trie_inv_remove: "trie_inv t \<Longrightarrow> trie_inv (snd (remove t w))"
proof -
  assume inv: "trie_inv t"
  obtain sd node' ws' ns' where r: "remove_rec (root t) w (words t, nodes t) = (sd, node', ws', ns')"
    by (metis prod_cases4)
  show ?thesis
    using remove_rec_inv [OF r] inv r by (simp add: trie_inv_def remove_def)
qed

lemma reachable_inv: "reachable t \<Longrightarrow> trie_inv t"
  by (induction rule: reachable.induct) (simp_all add: trie_inv_new trie_inv_insert trie_inv_remove)

subsection \<open>The operations on the whole trie\<close>

lemma remove_cases:
  obtains sd node' ws' ns' where
    "remove_rec (root t) w (words t, nodes t) = (sd, node', ws', ns')"
    "remove t w = (sd, \<lparr>root = node', words = ws', nodes = ns'\<rparr>)"
proof -
  obtain sd node' ws' ns' where r: "remove_rec (root t) w (words t, nodes t) = (sd, node', ws', ns')"
    by (metis prod_cases4)
  then have "remove t w = (sd, \<lparr>root = node', words = ws', nodes = ns'\<rparr>)"
    by (simp add: remove_def)
  with r show ?thesis by (rule that)
qed

lemma insert_cases:
  obtains node' ws' ns' where
    "insert_walk (root t) w fr (words t, nodes t) = (node', ws', ns')"
    "insert_word t w fr = \<lparr>root = node', words = ws', nodes = ns'\<rparr>"
proof -
  obtain node' ws' ns' where r: "insert_walk (root t) w fr (words t, nodes t) = (node', ws', ns')"
    by (metis prod_cases3)
  then have "insert_word t w fr = \<lparr>root = node', words = ws', nodes = ns'\<rparr>"
    by (simp add: insert_word_def)
  with r show ?thesis by (rule that)
qed

lemma contains_find:
  "contains t w \<Longrightarrow> \<exists>n. find_node (root t) w = Some n"
  by (auto simp: contains_def contains_from_find split: option.splits)

lemma weight_of_freq:
  "weight_of t w = (case map_option freq (find_node (root t) w) of None \<Rightarrow> Fin 0 | Some f \<Rightarrow> f)"
  by (simp add: weight_of_def split: option.splits)

lemma contains_insert: "contains (insert_word t w fr) w"
  by (rule insert_cases [of t w fr]) (auto simp: contains_def dest: insert_walk_result)

lemma weight_insert: "weight_of (insert_word t w fr) w = fr"
  by (rule insert_cases [of t w fr]) (auto simp: weight_of_freq dest!: insert_walk_result)

lemma words_insert: "words (insert_word t w fr) = words t + (if contains t w then 0 else 1)"
  by (rule insert_cases [of t w fr]) (auto simp: contains_def dest!: insert_walk_result)

lemma remove_absent: "\<not> contains t w \<Longrightarrow> remove t w = (False, t)"
  by (simp add: remove_def contains_def remove_rec_absent)

lemma not_contains_remove: "\<not> contains (snd (remove t w)) w"
  by (rule remove_cases [of t w]) (auto simp: contains_def dest!: remove_rec_signal)

lemma remove_returns:
  "fst (remove t w) \<longleftrightarrow>
     contains t w \<and> children (root (snd (remove t w))) = [] \<and> \<not> is_word (root (snd (remove t w)))"
  by (rule remove_cases [of t w]) (auto simp: contains_def dest!: remove_rec_signal)

lemma remove_other:
  assumes "w' \<noteq> w"
  shows "contains (snd (remove t w)) w' = contains t w'"
    and "contains t w' \<Longrightarrow> weight_of (snd (remove t w)) w' = weight_of t w'"
proof -
  obtain sd node' ws' ns' where
    r: "remove_rec (root t) w (words t, nodes t) = (sd, node', ws', ns')" and
    e: "remove t w = (sd, \<lparr>root = node', words = ws', nodes = ns'\<rparr>)"
    by (rule remove_cases)
  note fr = remove_rec_frame [OF r assms]
  show "contains (snd (remove t w)) w' = contains t w'"
    using fr e by (simp add: contains_def)
  show "weight_of (snd (remove t w)) w' = weight_of t w'" if "contains t w'"
    using fr e that by (simp add: contains_def weight_of_freq)
qed

lemma find_node_prefix:
  "find_node node (p @ s) = Some n \<Longrightarrow> find_node node p \<noteq> None"
  by (auto simp: find_node_append split: option.splits)

lemma slice_upto_0: "slice_upto xs 0 = []"
  by (simp add: slice_upto_def)

lemma complete_words_ranking: "complete_words t P k = slice_upto (ranking t P) k"
  by (simp add: complete_words_def ranking_def slice_upto_def take_map split: option.splits)

subsection \<open>Height\<close>

lemma get_height_leaf: "children node = [] \<Longrightarrow> get_height node = 0"
  by (simp add: get_height.simps)

lemma get_height_inner:
  "children node \<noteq> [] \<Longrightarrow> get_height node = 1 + Max (get_height ` snd ` set (children node))"
  by (simp add: get_height.simps [of node] image_image)

lemma get_height_nonneg: "0 \<le> get_height node"
proof (induction node rule: TrieNode_induct)
  case (Node cs w f)
  show ?case
  proof (cases cs)
    case Nil
    then show ?thesis by (simp add: get_height_leaf)
  next
    case (Cons a list)
    obtain c child where a: "a = (c, child)" by (cases a)
    have "0 \<le> get_height child"
      using Node [of c child] Cons a by simp
    also have "get_height child \<le> Max (get_height ` snd ` set cs)"
      using Cons a by (intro Max_ge) auto
    finally show ?thesis
      using Cons by (simp add: get_height_inner)
  qed
qed

lemma get_height_child:
  assumes "(c, child) \<in> set (children node)"
  shows "1 + get_height child \<le> get_height node"
proof -
  have "get_height child \<le> Max (get_height ` snd ` set (children node))"
    using assms by (intro Max_ge) (auto intro!: image_eqI [where x = "(c, child)"])
  moreover have "children node \<noteq> []"
    using assms by auto
  ultimately show ?thesis
    by (simp add: get_height_inner)
qed

lemma height_upper:
  "find_node node p = Some n \<Longrightarrow> int (length p) \<le> get_height node"
proof (induction p arbitrary: node)
  case Nil
  then show ?case by (simp add: get_height_nonneg)
next
  case (Cons c r)
  then obtain child where ch: "map_of (children node) c = Some child" "find_node child r = Some n"
    by (auto split: option.splits)
  have "int (length r) \<le> get_height child"
    using ch(2) by (rule Cons.IH)
  moreover have "1 + get_height child \<le> get_height node"
    using ch(1) by (intro get_height_child map_of_SomeD)
  ultimately show ?case by simp
qed

lemma height_attained:
  "wf_node node \<Longrightarrow> \<exists>p n. find_node node p = Some n \<and> int (length p) = get_height node"
proof (induction node rule: TrieNode_induct)
  case (Node cs w f)
  show ?case
  proof (cases "cs = []")
    case True
    then have "find_node (TrieNode cs w f) [] = Some (TrieNode cs w f)"
      "int (length ([] :: string)) = get_height (TrieNode cs w f)"
      by (simp_all add: get_height_leaf)
    then show ?thesis by blast
  next
    case False
    then have "Max (get_height ` snd ` set cs) \<in> get_height ` snd ` set cs"
      by (intro Max_in) auto
    then obtain c child where m: "(c, child) \<in> set cs"
      and h: "get_height child = Max (get_height ` snd ` set cs)"
      by force
    have "wf_node child" "distinct (map fst cs)"
      using Node.prems m by auto
    then obtain p n where p: "find_node child p = Some n" "int (length p) = get_height child"
      using Node.IH [OF m] by blast
    have "map_of cs c = Some child"
      using m \<open>distinct (map fst cs)\<close> by simp
    then have "find_node (TrieNode cs w f) (c # p) = Some n"
      using p(1) by simp
    moreover have "int (length (c # p)) = get_height (TrieNode cs w f)"
      using p(2) h False by (simp add: get_height_inner)
    ultimately show ?thesis by blast
  qed
qed

lemma height_fresh_chain:
  "children node = [] \<Longrightarrow> insert_walk node w fr (ws, ns) = (node', ws', ns') \<Longrightarrow>
     get_height node' = int (length w)"
proof (induction w arbitrary: node node' ws' ns' ws ns)
  case Nil
  then show ?case by (auto simp: get_height_leaf)
next
  case (Cons c r)
  from Cons.prems(2) obtain child' where
    r: "insert_walk (case map_of (children node) c of None \<Rightarrow> new_node | Some ch \<Rightarrow> ch) r fr
       (ws, (if map_of (children node) c = None then ns + 1 else ns)) = (child', ws', ns')" and
    n': "node' = TrieNode (AList.update c child' (children node)) (is_word node) (freq node)"
    by (rule insert_walk_step)
  have "insert_walk new_node r fr (ws, ns + 1) = (child', ws', ns')"
    using r Cons.prems(1) by simp
  then have "get_height child' = int (length r)"
    by (rule Cons.IH [rotated]) (simp add: new_node_def)
  then show ?case
    using n' Cons.prems(1) by (simp add: get_height_inner)
qed

subsection \<open>Insert, then remove\<close>

lemma heights_update_same:
  "map_of cs c = Some child \<Longrightarrow> get_height child' = get_height child \<Longrightarrow>
     map get_height (map snd (AList.update c child' cs)) = map get_height (map snd cs)"
  by (induction cs) (auto split: if_splits)

lemma get_height_cong:
  "map get_height (map snd (children a)) = map get_height (map snd (children b)) \<Longrightarrow>
     get_height a = get_height b"
  by (cases "children a = []"; cases "children b = []") (auto simp: get_height.simps [of a] get_height.simps [of b])

lemma fresh_chain_removed:
  "children node = [] \<Longrightarrow> \<not> is_word node \<Longrightarrow>
   insert_walk node w fr (ws, ns) = (node', ws', ns') \<Longrightarrow>
     ws' = ws + 1 \<and> ns' = ns + int (length w) \<and>
     (\<exists>node''. remove_rec node' w (ws2, ns2) = (True, node'', ws2 - 1, ns2 - int (length w)))"
proof (induction w arbitrary: node node' ws' ns' ws ns ws2 ns2)
  case Nil
  then show ?case by auto
next
  case (Cons c r)
  from Cons.prems(3) obtain child' where
    r: "insert_walk (case map_of (children node) c of None \<Rightarrow> new_node | Some ch \<Rightarrow> ch) r fr
       (ws, (if map_of (children node) c = None then ns + 1 else ns)) = (child', ws', ns')" and
    n': "node' = TrieNode (AList.update c child' (children node)) (is_word node) (freq node)"
    by (rule insert_walk_step)
  have r': "insert_walk new_node r fr (ws, ns + 1) = (child', ws', ns')"
    using r Cons.prems(1) by simp
  have fresh: "children new_node = []" "\<not> is_word new_node"
    by (simp_all add: new_node_def)
  note ih = Cons.IH [OF fresh r']
  obtain child'' where
    rm: "remove_rec child' r (ws2, ns2) = (True, child'', ws2 - 1, ns2 - int (length r))"
    using ih by blast
  have "remove_rec node' (c # r) (ws2, ns2) =
          (True, TrieNode [] False (freq node), ws2 - 1, ns2 - int (length r) - 1)"
    using n' Cons.prems(1,2) rm by simp
  moreover have "ws' = ws + 1" "ns' = ns + 1 + int (length r)"
    using ih by simp_all
  ultimately show ?case
    by simp
qed

text \<open>
  Inserting a word that is not stored and removing it at once: the counters are back,
  the node is what it was in \<^verbatim>\<open>is_word\<close>, in the keys of \<^verbatim>\<open>children\<close> and in height,
  and the signal says whether the node was a dead leaf before.
\<close>

lemma insert_remove_restores:
  assumes "no_dead node" "\<not> contains_from node w"
    and "insert_walk node w fr (ws, ns) = (node', ws', ns')"
    and "remove_rec node' w (ws', ns') = (sd, node'', ws'', ns'')"
  shows "ws'' = ws \<and> ns'' = ns \<and> (sd \<longleftrightarrow> children node = [] \<and> \<not> is_word node) \<and>
         is_word node'' = is_word node \<and> map fst (children node'') = map fst (children node) \<and>
         get_height node'' = get_height node"
  using assms
proof (induction w arbitrary: node node' ws' ns' ws ns sd node'' ws'' ns'')
  case Nil
  then show ?case
    by (auto simp: get_height.simps [of node] get_height.simps [of "TrieNode cs False fr" for cs])
next
  case (Cons c r)
  from Cons.prems(3) obtain child' where
    r: "insert_walk (case map_of (children node) c of None \<Rightarrow> new_node | Some ch \<Rightarrow> ch) r fr
       (ws, (if map_of (children node) c = None then ns + 1 else ns)) = (child', ws', ns')" and
    n': "node' = TrieNode (AList.update c child' (children node)) (is_word node) (freq node)"
    by (rule insert_walk_step)
  have m': "map_of (children node') c = Some child'"
    using n' by (simp add: update_conv')
  obtain sdc child'' wsc nsc where
    rm: "remove_rec child' r (ws', ns') = (sdc, child'', wsc, nsc)"
    by (metis prod_cases4)
  note step = remove_rec_step [OF Cons.prems(4) m' rm]
  show ?case
  proof (cases "map_of (children node) c")
    case None
    have fresh: "children new_node = []" "\<not> is_word new_node"
      by (simp_all add: new_node_def)
    have r': "insert_walk new_node r fr (ws, ns + 1) = (child', ws', ns')"
      using r None by simp
    from fresh_chain_removed [OF fresh r', of ws' ns']
    have cnt: "ws' = ws + 1" "ns' = ns + 1 + int (length r)"
      and sdc: "sdc" and out: "wsc = ws' - 1" "nsc = ns' - int (length r)"
      using rm by auto
    have ch: "children node'' = children node"
      using step(1) sdc n' None by (simp add: delete_update_fresh)
    then have "get_height node'' = get_height node"
      by (intro get_height_cong) simp
    then show ?thesis
      using ch step sdc cnt out n' by auto
  next
    case (Some child)
    have mem: "(c, child) \<in> set (children node)"
      using Some by (rule map_of_SomeD)
    then have child_ok: "no_dead child" "is_word child \<or> children child \<noteq> []"
      using Cons.prems(1) by (auto simp: no_dead_sel [of node])
    have nc: "\<not> contains_from child r"
      using Cons.prems(2) Some by simp
    have r': "insert_walk child r fr (ws, ns) = (child', ws', ns')"
      using r Some by simp
    note ih = Cons.IH [OF child_ok(1) nc r' rm]
    have sdc: "\<not> sdc"
      using ih child_ok(2) by blast
    have ch: "children node'' = AList.update c child'' (children node)"
      using step(1) sdc n' by simp
    have "map fst (children node'') = map fst (children node)"
      using ch mem by (force simp: update_keys)
    moreover have "get_height node'' = get_height node"
      using ch ih heights_update_same [OF Some, of child''] by (intro get_height_cong) simp
    ultimately show ?thesis
      using ch step sdc ih n' mem by auto
  qed
qed

subsection \<open>Counting nodes by their paths\<close>

lemma card_children_paths:
  assumes "distinct (map fst cs)"
    and "\<And>c ch. (c, ch) \<in> set cs \<Longrightarrow> finite (S ch) \<and> card (S ch) = g ch"
  shows "finite (\<Union>(c, ch)\<in>set cs. (#) c ` S ch) \<and>
         card (\<Union>(c, ch)\<in>set cs. (#) c ` S ch) = (\<Sum>(c, ch)\<leftarrow>cs. g ch)"
  using assms
proof (induction cs)
  case Nil
  then show ?case by simp
next
  case (Cons a cs)
  obtain c ch where a: "a = (c, ch)" by (cases a)
  let ?U = "\<Union>(c, ch)\<in>set cs. (#) c ` S ch"
  have ih: "finite ?U" "card ?U = (\<Sum>(c, ch)\<leftarrow>cs. g ch)"
    using Cons by auto
  have fin: "finite ((#) c ` S ch)" and crd: "card ((#) c ` S ch) = g ch"
    using Cons.prems(2) [of c ch] a by (simp_all add: card_image)
  have "c \<notin> fst ` set cs"
    using Cons.prems(1) a by simp
  then have disj: "(#) c ` S ch \<inter> ?U = {}"
    by force
  have "(\<Union>(c, ch)\<in>set (a # cs). (#) c ` S ch) = (#) c ` S ch \<union> ?U"
    using a by simp
  then show ?case
    using ih fin crd disj a by (simp add: card_Un_disjoint)
qed

lemma paths_unfold:
  assumes "distinct (map fst (children node))"
  shows "{p. find_node node p \<noteq> None} =
           insert [] (\<Union>(c, ch)\<in>set (children node). (#) c ` {p. find_node ch p \<noteq> None})"
    (is "?L = ?R")
proof (rule set_eqI)
  fix p
  show "p \<in> ?L \<longleftrightarrow> p \<in> ?R"
  proof (cases p)
    case Nil
    then show ?thesis by simp
  next
    case (Cons c r)
    have eq: "map_of (children node) c = Some ch \<longleftrightarrow> (c, ch) \<in> set (children node)" for ch
      using assms by simp
    have "p \<in> ?L \<longleftrightarrow> (\<exists>ch. map_of (children node) c = Some ch \<and> find_node ch r \<noteq> None)"
      using Cons by (auto split: option.splits)
    moreover have "p \<in> ?R \<longleftrightarrow> (\<exists>ch. (c, ch) \<in> set (children node) \<and> find_node ch r \<noteq> None)"
      using Cons by force
    ultimately show ?thesis
      using eq by simp
  qed
qed

lemma word_paths_unfold:
  assumes "distinct (map fst (children node))"
  shows "{p. contains_from node p} =
           (if is_word node then {[]} else {}) \<union>
           (\<Union>(c, ch)\<in>set (children node). (#) c ` {p. contains_from ch p})"
    (is "?L = ?R")
proof (rule set_eqI)
  fix p
  show "p \<in> ?L \<longleftrightarrow> p \<in> ?R"
  proof (cases p)
    case Nil
    then show ?thesis by auto
  next
    case (Cons c r)
    have eq: "map_of (children node) c = Some ch \<longleftrightarrow> (c, ch) \<in> set (children node)" for ch
      using assms by simp
    have "p \<in> ?L \<longleftrightarrow> (\<exists>ch. map_of (children node) c = Some ch \<and> contains_from ch r)"
      using Cons by (auto split: option.splits)
    moreover have "p \<in> ?R \<longleftrightarrow> (\<exists>ch. (c, ch) \<in> set (children node) \<and> contains_from ch r)"
      using Cons by force
    ultimately show ?thesis
      using eq by simp
  qed
qed

lemma card_paths:
  "wf_node node \<Longrightarrow>
     finite {p. find_node node p \<noteq> None} \<and> card {p. find_node node p \<noteq> None} = count_nodes node"
proof (induction node rule: TrieNode_induct)
  case (Node cs w f)
  let ?S = "\<lambda>ch. {p. find_node ch p \<noteq> None}"
  have d: "distinct (map fst cs)"
    using Node.prems by simp
  have "finite (\<Union>(c, ch)\<in>set cs. (#) c ` ?S ch) \<and>
        card (\<Union>(c, ch)\<in>set cs. (#) c ` ?S ch) = (\<Sum>(c, ch)\<leftarrow>cs. count_nodes ch)"
  proof (rule card_children_paths [OF d])
    fix c ch
    assume "(c, ch) \<in> set cs"
    then show "finite (?S ch) \<and> card (?S ch) = count_nodes ch"
      using Node.IH Node.prems by auto
  qed
  then have u: "finite (\<Union>(c, ch)\<in>set cs. (#) c ` ?S ch)"
    "card (\<Union>(c, ch)\<in>set cs. (#) c ` ?S ch) = (\<Sum>(c, ch)\<leftarrow>cs. count_nodes ch)"
    by blast+
  have "[] \<notin> (\<Union>(c, ch)\<in>set cs. (#) c ` ?S ch)"
    by auto
  then show ?case
    using u paths_unfold [of "TrieNode cs w f"] d by simp
qed

lemma card_word_paths:
  "wf_node node \<Longrightarrow>
     finite {p. contains_from node p} \<and> card {p. contains_from node p} = count_words node"
proof (induction node rule: TrieNode_induct)
  case (Node cs w f)
  let ?S = "\<lambda>ch. {p. contains_from ch p}"
  have d: "distinct (map fst cs)"
    using Node.prems by simp
  have "finite (\<Union>(c, ch)\<in>set cs. (#) c ` ?S ch) \<and>
        card (\<Union>(c, ch)\<in>set cs. (#) c ` ?S ch) = (\<Sum>(c, ch)\<leftarrow>cs. count_words ch)"
  proof (rule card_children_paths [OF d])
    fix c ch
    assume "(c, ch) \<in> set cs"
    then show "finite (?S ch) \<and> card (?S ch) = count_words ch"
      using Node.IH Node.prems by auto
  qed
  then have u: "finite (\<Union>(c, ch)\<in>set cs. (#) c ` ?S ch)"
    "card (\<Union>(c, ch)\<in>set cs. (#) c ` ?S ch) = (\<Sum>(c, ch)\<leftarrow>cs. count_words ch)"
    by blast+
  have "[] \<notin> (\<Union>(c, ch)\<in>set cs. (#) c ` ?S ch)"
    by auto
  then show ?case
    using u word_paths_unfold [of "TrieNode cs w f"] d by simp
qed

lemma no_dead_path:
  "no_dead node \<Longrightarrow> find_node node p = Some n \<Longrightarrow> p \<noteq> [] \<Longrightarrow> is_word n \<or> children n \<noteq> []"
proof (induction p arbitrary: node)
  case Nil
  then show ?case by simp
next
  case (Cons c r)
  then obtain child where ch: "map_of (children node) c = Some child" "find_node child r = Some n"
    by (auto split: option.splits)
  have mem: "(c, child) \<in> set (children node)"
    using ch(1) by (rule map_of_SomeD)
  then have ok: "no_dead child" "is_word child \<or> children child \<noteq> []"
    using Cons.prems(1) by (auto simp: no_dead_sel [of node])
  show ?case
  proof (cases r)
    case Nil
    then show ?thesis using ch(2) ok(2) by simp
  next
    case (Cons a list)
    then show ?thesis using Cons.IH [OF ok(1) ch(2)] by simp
  qed
qed

subsection \<open>The sort permutes\<close>

lemma bisect_bounds: "l \<le> r \<Longrightarrow> l \<le> bisect lt pivot a l r \<and> bisect lt pivot a l r \<le> r"
proof (induction lt pivot a l r rule: bisect.induct)
  case (1 lt pivot a l r)
  show ?case
  proof (cases "l < r")
    case False
    then show ?thesis using "1.prems" by (simp add: bisect.simps)
  next
    case True
    define p where "p = l + (r - l) div 2"
    have p: "l \<le> p" "p < r"
      using True by (simp_all add: p_def)
    show ?thesis
    proof (cases "lt pivot (a ! p)")
      case lt: True
      then have "bisect lt pivot a l r = bisect lt pivot a l p"
        using True by (subst bisect.simps) (simp add: p_def)
      moreover have "l \<le> bisect lt pivot a l p \<and> bisect lt pivot a l p \<le> p"
        using "1.IH"(1) [OF True] lt p unfolding p_def by simp
      ultimately show ?thesis using p by simp
    next
      case nlt: False
      then have "bisect lt pivot a l r = bisect lt pivot a (p + 1) r"
        using True by (subst bisect.simps) (simp add: p_def)
      moreover have "p + 1 \<le> bisect lt pivot a (p + 1) r \<and> bisect lt pivot a (p + 1) r \<le> r"
        using "1.IH"(2) [OF True] nlt p unfolding p_def by simp
      ultimately show ?thesis using p by simp
    qed
  qed
qed

lemma set_insert_at: "set (take l d @ [p] @ drop l d) = insert p (set d)"
proof -
  have "set (take l d) \<union> set (drop l d) = set d"
    by (metis append_take_drop_id set_append)
  then show ?thesis by auto
qed

lemma distinct_map_insert_at:
  "distinct (map f (take l d @ [p] @ drop l d)) = distinct (map f (p # d))"
proof -
  have "distinct (map f (xs @ [p] @ ys)) = distinct (map f (p # xs @ ys))" for xs ys
    by auto
  from this [of "take l d" "drop l d"] show ?thesis
    by simp
qed

lemma binarysort_perm:
  "set (binarysort lt d rest) = set d \<union> set rest \<and>
   length (binarysort lt d rest) = length d + length rest \<and>
   distinct (map f (binarysort lt d rest)) = distinct (map f (d @ rest))"
proof (induction rest arbitrary: d)
  case Nil
  then show ?case by simp
next
  case (Cons pivot rest)
  define l where "l = bisect lt pivot d 0 (length d)"
  define d' where "d' = take l d @ [pivot] @ drop l d"
  have step: "binarysort lt d (pivot # rest) = binarysort lt d' rest"
    by (simp add: l_def d'_def Let_def)
  have "l \<le> length d"
    using bisect_bounds [of 0 "length d" lt pivot d] by (simp add: l_def)
  then have len: "length d' = Suc (length d)"
    by (simp add: d'_def)
  have set': "set d' = insert pivot (set d)"
    unfolding d'_def by (rule set_insert_at)
  have "distinct (map f d') = distinct (map f (pivot # d))"
    unfolding d'_def by (rule distinct_map_insert_at)
  then have dist: "distinct (map f (d' @ rest)) = distinct (map f (d @ pivot # rest))"
    using set' by auto
  show ?case
    unfolding step using Cons.IH [of d'] len set' dist by auto
qed

lemma list_sort_perm:
  "set (list_sort lt xs) = set xs \<and> length (list_sort lt xs) = length xs \<and>
   distinct (map f (list_sort lt xs)) = distinct (map f xs)"
proof (cases "length xs < 2")
  case True
  then show ?thesis by (simp add: list_sort_def)
next
  case False
  obtain n descending where cr: "count_run lt xs = (n, descending)"
    by (cases "count_run lt xs")
  define run where "run = (if descending then rev (take n xs) else take n xs)"
  have ls: "list_sort lt xs = binarysort lt run (drop n xs)"
    using False cr by (simp add: list_sort_def run_def)
  have s: "set run = set (take n xs)" and l: "length run = length (take n xs)"
    and d: "distinct (map f (run @ drop n xs)) = distinct (map f (take n xs @ drop n xs))"
    by (simp_all add: run_def rev_map [symmetric] del: append_take_drop_id)
  have "set (take n xs) \<union> set (drop n xs) = set xs"
    by (metis append_take_drop_id set_append)
  moreover have "length (take n xs) + length (drop n xs) = length xs"
    by simp
  ultimately show ?thesis
    using binarysort_perm [of lt run "drop n xs" f] s l d unfolding ls
    by (simp del: length_take length_drop)
qed

subsection \<open>The sort sorts where the comparison is a linear order\<close>

text \<open>
  \<open>K\<close> maps the items to a linear order, and \<open>lt\<close> is that order on the items at hand.
\<close>

lemma count_asc_sorted:
  fixes K :: "'a \<Rightarrow> 'k::linorder"
  assumes "\<forall>a\<in>set (prev # xs). \<forall>b\<in>set (prev # xs). lt a b \<longleftrightarrow> K a < K b"
  shows "sorted (map K (prev # take (count_asc lt prev xs) xs))"
  using assms
proof (induction xs arbitrary: prev)
  case Nil
  then show ?case by simp
next
  case (Cons x xs)
  show ?case
  proof (cases "lt x prev")
    case True
    then show ?thesis by simp
  next
    case False
    then have "K prev \<le> K x"
      using Cons.prems by auto
    moreover have "sorted (map K (x # take (count_asc lt x xs) xs))"
      using Cons.prems by (intro Cons.IH) auto
    ultimately show ?thesis
      using False by (auto intro: order_trans [of "K prev" "K x"])
  qed
qed

lemma count_desc_sorted:
  fixes K :: "'a \<Rightarrow> 'k::linorder"
  assumes "\<forall>a\<in>set (prev # xs). \<forall>b\<in>set (prev # xs). lt a b \<longleftrightarrow> K a < K b"
  shows "sorted (map K (rev (prev # take (count_desc lt prev xs) xs))) \<and>
         (\<forall>y\<in>set (prev # take (count_desc lt prev xs) xs). K y \<le> K prev)"
  using assms
proof (induction xs arbitrary: prev)
  case Nil
  then show ?case by simp
next
  case (Cons x xs)
  show ?case
  proof (cases "lt x prev")
    case False
    then show ?thesis by simp
  next
    case True
    then have less: "K x < K prev"
      using Cons.prems by auto
    have ih: "sorted (map K (rev (x # take (count_desc lt x xs) xs)))"
      "\<forall>y\<in>set (x # take (count_desc lt x xs) xs). K y \<le> K x"
      using Cons.prems Cons.IH [of x] by auto
    have below: "\<forall>y\<in>set (x # take (count_desc lt x xs) xs). K y \<le> K prev"
      using ih(2) less by fastforce
    have "sorted (map K (rev (x # take (count_desc lt x xs) xs)) @ [K prev])"
      using ih(1) below by (simp only: sorted_append) auto
    then show ?thesis
      using True below by simp
  qed
qed

lemma bisect_correct:
  fixes K :: "'a \<Rightarrow> 'k::linorder"
  assumes "sorted (map K d)"
    and "\<forall>b\<in>set d. lt pivot b \<longleftrightarrow> K pivot < K b"
    and "l \<le> r" "r \<le> length d"
    and "\<forall>j<l. K (d ! j) \<le> K pivot"
    and "\<forall>j. r \<le> j \<and> j < length d \<longrightarrow> K pivot < K (d ! j)"
  shows "(\<forall>j<bisect lt pivot d l r. K (d ! j) \<le> K pivot) \<and>
         (\<forall>j. bisect lt pivot d l r \<le> j \<and> j < length d \<longrightarrow> K pivot < K (d ! j))"
  using assms
proof (induction lt pivot d l r rule: bisect.induct)
  case (1 lt pivot d l r)
  show ?case
  proof (cases "l < r")
    case False
    then have "bisect lt pivot d l r = l" "l = r"
      using "1.prems"(3) by (simp_all add: bisect.simps)
    then show ?thesis
      using "1.prems"(5,6) by simp
  next
    case True
    define p where "p = l + (r - l) div 2"
    have p: "l \<le> p" "p < r" "p < length d"
      using True "1.prems"(4) by (simp_all add: p_def)
    then have mem: "d ! p \<in> set d"
      by simp
    have mono: "K (d ! i) \<le> K (d ! j)" if "i \<le> j" "j < length d" for i j
      using "1.prems"(1) that sorted_nth_mono [of "map K d" i j] by simp
    show ?thesis
    proof (cases "lt pivot (d ! p)")
      case lt: True
      then have eq: "bisect lt pivot d l r = bisect lt pivot d l p"
        using True by (subst bisect.simps) (simp add: p_def)
      have less: "K pivot < K (d ! p)"
        using lt mem "1.prems"(2) by simp
      have "\<forall>j. p \<le> j \<and> j < length d \<longrightarrow> K pivot < K (d ! j)"
        using less mono by (meson less_le_trans)
      then have "\<forall>j. l + (r - l) div 2 \<le> j \<and> j < length d \<longrightarrow> K pivot < K (d ! j)"
        by (simp add: p_def)
      moreover have "lt pivot (d ! (l + (r - l) div 2))" "l \<le> l + (r - l) div 2"
        "l + (r - l) div 2 \<le> length d"
        using lt p by (simp_all add: p_def)
      ultimately show ?thesis
        unfolding eq p_def
        by (intro "1.IH"(1) [OF True _ "1.prems"(1,2) _ _ "1.prems"(5)])
    next
      case nlt: False
      then have eq: "bisect lt pivot d l r = bisect lt pivot d (p + 1) r"
        using True by (subst bisect.simps) (simp add: p_def)
      have le: "K (d ! p) \<le> K pivot"
        using nlt mem "1.prems"(2) by auto
      have "\<forall>j<p + 1. K (d ! j) \<le> K pivot"
      proof (intro allI impI)
        fix j
        assume "j < p + 1"
        then have "K (d ! j) \<le> K (d ! p)"
          using mono [of j p] p(3) by simp
        then show "K (d ! j) \<le> K pivot"
          using le by simp
      qed
      then have "\<forall>j<l + (r - l) div 2 + 1. K (d ! j) \<le> K pivot"
        by (simp add: p_def)
      moreover have "\<not> lt pivot (d ! (l + (r - l) div 2))" "l + (r - l) div 2 + 1 \<le> r"
        using nlt p by (simp_all add: p_def)
      ultimately show ?thesis
        unfolding eq p_def
        by (intro "1.IH"(2) [OF True _ "1.prems"(1,2) _ "1.prems"(4) _ "1.prems"(6)])
    qed
  qed
qed

lemma insert_at_sorted:
  fixes K :: "'a \<Rightarrow> 'k::linorder"
  assumes "sorted (map K d)"
    and "\<forall>j<l. K (d ! j) \<le> K pivot"
    and "\<forall>j. l \<le> j \<and> j < length d \<longrightarrow> K pivot < K (d ! j)"
    and "l \<le> length d"
  shows "sorted (map K (take l d @ [pivot] @ drop l d))"
proof -
  have t: "\<forall>x\<in>set (take l d). K x \<le> K pivot"
    using assms(2,4) by (auto simp: in_set_conv_nth)
  have dr: "\<forall>x\<in>set (drop l d). K pivot \<le> K x"
  proof
    fix x
    assume "x \<in> set (drop l d)"
    then obtain i where "i < length d - l" "x = d ! (l + i)"
      by (auto simp: in_set_conv_nth)
    then show "K pivot \<le> K x"
      using assms(3) by (simp add: less_imp_le)
  qed
  have st: "sorted (map K (take l d))" "sorted (map K (drop l d))"
    using assms(1) by (simp_all add: take_map [symmetric] drop_map [symmetric] sorted_wrt_take sorted_wrt_drop)
  have "\<forall>x\<in>set (take l d). \<forall>y\<in>set (drop l d). K x \<le> K y"
    using t dr by (meson order_trans)
  then show ?thesis
    using t dr st by (simp add: sorted_append)
qed

lemma binarysort_sorted:
  fixes K :: "'a \<Rightarrow> 'k::linorder"
  assumes "sorted (map K d)"
    and "\<forall>a\<in>set (d @ rest). \<forall>b\<in>set (d @ rest). lt a b \<longleftrightarrow> K a < K b"
  shows "sorted (map K (binarysort lt d rest))"
  using assms
proof (induction rest arbitrary: d)
  case Nil
  then show ?case by simp
next
  case (Cons pivot rest)
  define l where "l = bisect lt pivot d 0 (length d)"
  define d' where "d' = take l d @ [pivot] @ drop l d"
  have step: "binarysort lt d (pivot # rest) = binarysort lt d' rest"
    by (simp add: l_def d'_def Let_def)
  have agree: "\<forall>b\<in>set d. lt pivot b \<longleftrightarrow> K pivot < K b"
    using Cons.prems(2) by simp
  have inv: "(\<forall>j<l. K (d ! j) \<le> K pivot) \<and> (\<forall>j. l \<le> j \<and> j < length d \<longrightarrow> K pivot < K (d ! j))"
    unfolding l_def using Cons.prems(1) agree
    by (intro bisect_correct [of K d lt pivot 0 "length d"]) auto
  have "l \<le> length d"
    using bisect_bounds [of 0 "length d" lt pivot d] by (simp add: l_def)
  then have "sorted (map K d')"
    unfolding d'_def using inv by (intro insert_at_sorted [OF Cons.prems(1)]) simp_all
  moreover have "set d' = insert pivot (set d)"
    unfolding d'_def by (rule set_insert_at)
  then have "set (d' @ rest) = set (d @ pivot # rest)"
    by simp
  ultimately show ?case
    unfolding step using Cons.prems(2) by (intro Cons.IH) simp_all
qed

lemma list_sort_sorted:
  fixes K :: "'a \<Rightarrow> 'k::linorder"
  assumes "\<forall>a\<in>set xs. \<forall>b\<in>set xs. lt a b \<longleftrightarrow> K a < K b"
  shows "sorted (map K (list_sort lt xs))"
proof (cases xs)
  case Nil
  then show ?thesis by (simp add: list_sort_def)
next
  case (Cons x0 ys)
  show ?thesis
  proof (cases ys)
    case Nil
    then show ?thesis using Cons by (simp add: list_sort_def)
  next
    case ys: (Cons x1 rest)
    have xs: "xs = x0 # x1 # rest"
      using Cons ys by simp
    obtain n descending where cr: "count_run lt xs = (n, descending)"
      by (cases "count_run lt xs")
    define run where "run = (if descending then rev (take n xs) else take n xs)"
    have ls: "list_sort lt xs = binarysort lt run (drop n xs)"
      using xs cr by (simp add: list_sort_def run_def)
    have agree1: "\<forall>a\<in>set (x1 # rest). \<forall>b\<in>set (x1 # rest). lt a b \<longleftrightarrow> K a < K b"
      using assms xs by simp
    have first: "lt x1 x0 \<longleftrightarrow> K x1 < K x0"
      using assms xs by simp
    have "sorted (map K run)"
    proof (cases "lt x1 x0")
      case True
      then have n: "n = 2 + count_desc lt x1 rest" "descending"
        using cr xs by simp_all
      have d: "sorted (map K (rev (x1 # take (count_desc lt x1 rest) rest)))"
        "\<forall>y\<in>set (x1 # take (count_desc lt x1 rest) rest). K y \<le> K x1"
        using count_desc_sorted [OF agree1] by simp_all
      have "\<forall>y\<in>set (x1 # take (count_desc lt x1 rest) rest). K y \<le> K x0"
        using d(2) True first by fastforce
      then have "sorted (map K (rev (x1 # take (count_desc lt x1 rest) rest)) @ [K x0])"
        using d(1) by (simp only: sorted_append) auto
      then show ?thesis
        using n xs by (simp add: run_def)
    next
      case False
      then have n: "n = 2 + count_asc lt x1 rest" "\<not> descending"
        using cr xs by simp_all
      have "sorted (map K (x1 # take (count_asc lt x1 rest) rest))"
        using count_asc_sorted [OF agree1] .
      moreover have "K x0 \<le> K x1"
        using False first by simp
      ultimately have "sorted (map K (x0 # x1 # take (count_asc lt x1 rest) rest))"
        by (auto intro: order_trans [of "K x0" "K x1"])
      then show ?thesis
        using n xs by (simp add: run_def del: sorted2)
    qed
    moreover have "set (run @ drop n xs) = set xs"
    proof -
      have "set (take n xs) \<union> set (drop n xs) = set xs"
        by (metis append_take_drop_id set_append)
      then show ?thesis by (simp add: run_def)
    qed
    ultimately show ?thesis
      unfolding ls using assms by (intro binarysort_sorted) simp_all
  qed
qed

subsection \<open>The candidates of complete\<close>

lemma collect_mem:
  "(f, s) \<in> set (collect node path) \<longleftrightarrow>
     (\<exists>w n. s = path @ w \<and> find_node node w = Some n \<and> is_word n \<and> f = freq n)"
proof (induction node path arbitrary: f s rule: collect.induct)
  case (1 node path)
  have here: "(f, s) \<in> set (collect node path) \<longleftrightarrow>
      (is_word node \<and> f = freq node \<and> s = path) \<or>
      (\<exists>c ch. c \<in> fst ` set (children node) \<and> map_of (children node) c = Some ch \<and>
         (f, s) \<in> set (collect ch (path @ [c])))"
  proof -
    have "set (collect node path) =
        (if is_word node then {(freq node, path)} else {}) \<union>
        (\<Union>c\<in>fst ` set (children node).
           set (case map_of (children node) c of None \<Rightarrow> [] | Some ch \<Rightarrow> collect ch (path @ [c])))"
      by (subst collect.simps) simp
    also have "(f, s) \<in> \<dots> \<longleftrightarrow>
      (is_word node \<and> f = freq node \<and> s = path) \<or>
      (\<exists>c ch. c \<in> fst ` set (children node) \<and> map_of (children node) c = Some ch \<and>
         (f, s) \<in> set (collect ch (path @ [c])))"
      by (fastforce split: option.splits if_splits)
    finally show ?thesis .
  qed
  have below: "(f, s) \<in> set (collect ch (path @ [c])) \<longleftrightarrow>
      (\<exists>w n. s = path @ c # w \<and> find_node ch w = Some n \<and> is_word n \<and> f = freq n)"
    if "map_of (children node) c = Some ch" for c ch
  proof -
    have "c \<in> set (sort (map fst (children node)))"
      using that by (auto dest!: map_of_SomeD intro: rev_image_eqI)
    from "1.IH" [OF this that] show ?thesis by simp
  qed
  show ?case
  proof
    assume "(f, s) \<in> set (collect node path)"
    then consider "is_word node" "f = freq node" "s = path"
      | c ch where "map_of (children node) c = Some ch" "(f, s) \<in> set (collect ch (path @ [c]))"
      using here by blast
    then show "\<exists>w n. s = path @ w \<and> find_node node w = Some n \<and> is_word n \<and> f = freq n"
    proof cases
      case 1
      then have "s = path @ []" "find_node node [] = Some node" by simp_all
      then show ?thesis using 1 by blast
    next
      case 2
      then obtain w n where w: "s = path @ c # w" "find_node ch w = Some n" "is_word n" "f = freq n"
        using below by blast
      then have "find_node node (c # w) = Some n" using 2(1) by simp
      then show ?thesis using w by blast
    qed
  next
    assume "\<exists>w n. s = path @ w \<and> find_node node w = Some n \<and> is_word n \<and> f = freq n"
    then obtain w n where w: "s = path @ w" "find_node node w = Some n" "is_word n" "f = freq n"
      by blast
    show "(f, s) \<in> set (collect node path)"
    proof (cases w)
      case Nil
      then show ?thesis using w here by simp
    next
      case (Cons c r)
      then obtain ch where ch: "map_of (children node) c = Some ch" "find_node ch r = Some n"
        using w(2) by (auto split: option.splits)
      then have "(f, s) \<in> set (collect ch (path @ [c]))"
        using below [OF ch(1)] w Cons by blast
      moreover have "c \<in> fst ` set (children node)"
        using ch(1) by (auto dest!: map_of_SomeD intro: rev_image_eqI)
      ultimately show ?thesis using here ch(1) by blast
    qed
  qed
qed

lemma distinct_concat_map:
  assumes "distinct ks"
    and "\<And>k. k \<in> set ks \<Longrightarrow> distinct (F k)"
    and "\<And>k k'. k \<in> set ks \<Longrightarrow> k' \<in> set ks \<Longrightarrow> k \<noteq> k' \<Longrightarrow> set (F k) \<inter> set (F k') = {}"
  shows "distinct (concat (map F ks))"
  using assms
proof (induction ks)
  case Nil
  then show ?case by simp
next
  case (Cons k ks)
  have "distinct (concat (map F ks))"
    using Cons by auto
  moreover have "distinct (F k)"
    using Cons.prems(2) by simp
  moreover have "set (F k) \<inter> set (F k') = {}" if "k' \<in> set ks" for k'
    using Cons.prems(1) Cons.prems(3) [of k k'] that by auto
  ultimately show ?case by auto
qed

lemma collect_distinct:
  "wf_node node \<Longrightarrow> distinct (map snd (collect node path))"
proof (induction node path rule: collect.induct)
  case (1 node path)
  define F where "F = (\<lambda>c. map snd (case map_of (children node) c of
                            None \<Rightarrow> [] | Some ch \<Rightarrow> collect ch (path @ [c])))"
  have unfold: "map snd (collect node path) =
      (if is_word node then [path] else []) @ concat (map F (sort (map fst (children node))))"
    by (subst collect.simps) (simp add: F_def map_concat comp_def)
  have d: "distinct (map fst (children node))"
    and all_wf: "\<forall>(k, ch) \<in> set (children node). wf_node ch"
    using "1.prems" by (simp_all add: wf_node_sel [of node])
  have Fsub: "\<exists>w. s = path @ c # w" if mem: "s \<in> set (F c)" for s c
  proof (cases "map_of (children node) c")
    case None
    then show ?thesis using mem by (simp add: F_def)
  next
    case (Some ch)
    then have "s \<in> snd ` set (collect ch (path @ [c]))"
      using mem by (simp add: F_def)
    then obtain f where "(f, s) \<in> set (collect ch (path @ [c]))"
      by force
    then show ?thesis by (auto simp: collect_mem)
  qed
  have Fd: "distinct (F c)" if "c \<in> set (sort (map fst (children node)))" for c
  proof (cases "map_of (children node) c")
    case None
    then show ?thesis by (simp add: F_def)
  next
    case (Some ch)
    then have "wf_node ch"
      using all_wf by (auto dest!: map_of_SomeD)
    then show ?thesis
      using "1.IH" [OF that Some] Some by (simp add: F_def)
  qed
  have Fdisj: "set (F c) \<inter> set (F c') = {}" if ne: "c \<noteq> c'" for c c'
  proof (rule ccontr)
    assume "set (F c) \<inter> set (F c') \<noteq> {}"
    then obtain s where "s \<in> set (F c)" "s \<in> set (F c')"
      by blast
    then obtain w w' where "s = path @ c # w" "s = path @ c' # w'"
      using Fsub by blast
    then show False
      using ne by simp
  qed
  have "distinct (concat (map F (sort (map fst (children node)))))"
    using d Fd Fdisj by (intro distinct_concat_map) auto
  moreover have "path \<notin> set (concat (map F (sort (map fst (children node)))))"
    using Fsub by auto
  ultimately show ?case
    by (simp add: unfold)
qed

subsection \<open>The ranked list\<close>

lemma starts_with_iff: "starts_with s P \<longleftrightarrow> (\<exists>w. s = P @ w)"
proof
  assume "starts_with s P"
  then have "s = P @ drop (length P) s"
    by (metis append_take_drop_id starts_with_def)
  then show "\<exists>w. s = P @ w" ..
next
  assume "\<exists>w. s = P @ w"
  then show "starts_with s P"
    by (auto simp: starts_with_def)
qed

lemma wf_node_find: "wf_node node \<Longrightarrow> find_node node p = Some n \<Longrightarrow> wf_node n"
proof (induction p arbitrary: node)
  case Nil
  then show ?case by simp
next
  case (Cons c r)
  then obtain ch where ch: "map_of (children node) c = Some ch" "find_node ch r = Some n"
    by (auto split: option.splits)
  then have "wf_node ch"
    using Cons.prems(1) by (auto simp: wf_node_sel [of node] dest!: map_of_SomeD)
  then show ?case
    using ch(2) by (rule Cons.IH)
qed

lemma set_sort_candidates [simp]: "set (sort_candidates xs) = set xs"
  by (simp add: sort_candidates_def list_sort_perm)

lemma candidate_lt_key:
  "fst a \<noteq> NaN \<Longrightarrow> fst b \<noteq> NaN \<Longrightarrow> candidate_lt a b \<longleftrightarrow> cand_key a < cand_key b"
  by (cases "fst a"; cases "fst b")
    (auto simp: candidate_lt_def tuple_lt_def sort_key_of_def cand_key_def float_eq_def less_prod_def)

lemma cand_key_inj:
  "fst a \<noteq> NaN \<Longrightarrow> fst b \<noteq> NaN \<Longrightarrow> cand_key a = cand_key b \<Longrightarrow> a = b"
  by (cases "fst a"; cases "fst b") (auto simp: cand_key_def prod_eq_iff)

lemma cand_key_outranks:
  "fst a \<noteq> NaN \<Longrightarrow> fst b \<noteq> NaN \<Longrightarrow> cand_key a < cand_key b \<Longrightarrow>
     float_lt (fst b) (fst a) \<or> (float_eq (fst a) (fst b) \<and> snd a < snd b)"
  by (cases "fst a"; cases "fst b") (auto simp: cand_key_def float_eq_def less_prod_def)

lemma ranking_set: "set (ranking t P) = {s. starts_with s P \<and> contains t s}"
proof (cases "find_node (root t) P")
  case None
  then have "\<not> contains t (P @ w)" for w
    by (simp add: contains_def contains_from_find find_node_append)
  then show ?thesis
    using None by (auto simp: ranking_def starts_with_iff)
next
  case (Some node)
  have "s \<in> set (ranking t P) \<longleftrightarrow> starts_with s P \<and> contains t s" for s
  proof -
    have "s \<in> set (ranking t P) \<longleftrightarrow> (\<exists>f. (f, s) \<in> set (collect node P))"
      using Some by (force simp: ranking_def)
    also have "\<dots> \<longleftrightarrow> (\<exists>w n. s = P @ w \<and> find_node node w = Some n \<and> is_word n)"
      by (auto simp: collect_mem)
    also have "\<dots> \<longleftrightarrow> (\<exists>w. s = P @ w \<and> contains t (P @ w))"
      using Some by (auto simp: contains_def contains_from_find find_node_append split: option.splits)
    also have "\<dots> \<longleftrightarrow> starts_with s P \<and> contains t s"
      by (auto simp: starts_with_iff)
    finally show ?thesis .
  qed
  then show ?thesis by blast
qed

lemma ranking_distinct: "wf_node (root t) \<Longrightarrow> distinct (ranking t P)"
proof (cases "find_node (root t) P")
  case None
  then show ?thesis by (simp add: ranking_def)
next
  case (Some node)
  assume "wf_node (root t)"
  then have "wf_node node"
    using Some by (rule wf_node_find)
  then have "distinct (map snd (collect node P))"
    by (rule collect_distinct)
  then have "distinct (map snd (sort_candidates (collect node P)))"
    using list_sort_perm [of candidate_lt "collect node P" snd] by (simp add: sort_candidates_def)
  then show ?thesis
    using Some by (simp add: ranking_def)
qed

lemma ranking_sorted:
  assumes "wf_node (root t)"
    and "\<And>w. starts_with w P \<Longrightarrow> contains t w \<Longrightarrow> weight_of t w \<noteq> NaN"
  shows "sorted_wrt (outranks t) (ranking t P)"
proof (cases "find_node (root t) P")
  case None
  then show ?thesis by (simp add: ranking_def)
next
  case (Some node)
  have "wf_node node"
    using assms(1) Some by (rule wf_node_find)
  then have d: "distinct (map snd (collect node P))"
    by (rule collect_distinct)
  define zs where "zs = sort_candidates (collect node P)"
  have set_zs: "set zs = set (collect node P)"
    by (simp add: zs_def)
  have w: "weight_of t (snd a) = fst a \<and> fst a \<noteq> NaN" if mem: "a \<in> set (collect node P)" for a
  proof -
    obtain f s where a: "a = (f, s)"
      by (cases a)
    then have "(f, s) \<in> set (collect node P)"
      using mem by simp
    then obtain w n where n: "s = P @ w" "find_node node w = Some n" "is_word n" "f = freq n"
      unfolding collect_mem by blast
    then have weight: "weight_of t s = f"
      using Some by (simp add: weight_of_def find_node_append)
    have "starts_with s P" "contains t s"
      using n Some by (simp_all add: starts_with_iff contains_def contains_from_find find_node_append)
    then have "weight_of t s \<noteq> NaN"
      by (rule assms(2))
    then show ?thesis
      using weight a by simp
  qed
  have agree: "\<forall>a\<in>set (collect node P). \<forall>b\<in>set (collect node P).
      candidate_lt a b \<longleftrightarrow> cand_key a < cand_key b"
    using w by (simp add: candidate_lt_key)
  have "inj_on cand_key (set zs)"
    using w cand_key_inj unfolding set_zs inj_on_def by blast
  moreover have "distinct zs"
    using d list_sort_perm [of candidate_lt "collect node P" snd]
    by (simp add: zs_def sort_candidates_def distinct_map)
  ultimately have "distinct (map cand_key zs)"
    by (simp add: distinct_map)
  moreover have "sorted (map cand_key zs)"
    unfolding zs_def sort_candidates_def using agree by (rule list_sort_sorted)
  ultimately have "sorted_wrt (<) (map cand_key zs)"
    by (simp add: strict_sorted_iff)
  then have strict: "sorted_wrt (\<lambda>a b. cand_key a < cand_key b) zs"
    by (simp add: sorted_wrt_map)
  have "sorted_wrt (\<lambda>a b. outranks t (snd a) (snd b)) zs"
  proof (rule sorted_wrt_mono_rel [OF _ strict])
    fix a b
    assume "a \<in> set zs" "b \<in> set zs" "cand_key a < cand_key b"
    then show "outranks t (snd a) (snd b)"
      using w [of a] w [of b] cand_key_outranks [of a b] unfolding set_zs
      by (simp add: outranks_def)
  qed
  then have "sorted_wrt (outranks t) (map snd zs)"
    by (simp add: sorted_wrt_map)
  then show ?thesis
    using Some by (simp add: ranking_def zs_def)
qed

lemma complete_words_zero: "complete_words t P 0 = []"
  by (simp add: complete_words_ranking slice_upto_0)

lemma complete_words_take: "0 \<le> k \<Longrightarrow> complete_words t P k = take (nat k) (ranking t P)"
  by (simp add: complete_words_ranking slice_upto_def)

text \<open>The definitions to unfold when an operation is run on a given trie.\<close>

lemmas run_defs =
  insert_word_def remove_def contains_def complete_words_def ranking_def weight_of_def stats_def
  new_trie_def new_node_def collect.simps get_height.simps slice_upto_def
  sort_candidates_def list_sort_def bisect.simps candidate_lt_def tuple_lt_def sort_key_of_def
  float_eq_def

section \<open>The claims\<close>

subsection \<open>C1: the value returned by remove\<close>

text \<open>
  C1 says that \<^verbatim>\<open>remove(W)\<close> returns true exactly when \<open>W\<close> is stored, also when no
  node is pruned. The code returns the pruning signal of the root instead
  (lemma \<open>remove_returns\<close>: true exactly when \<open>W\<close> was stored and the root is left
  without children and is not a word). After inserting \<^verbatim>\<open>cat\<close> and \<^verbatim>\<open>car\<close> into the
  empty trie, \<^verbatim>\<open>cat\<close> is stored and \<^verbatim>\<open>remove("cat")\<close> returns \<^verbatim>\<open>False\<close>, though it
  does remove the word.
\<close>

theorem remove_stored_word_returns_false:
  "contains (insert_word (insert_word new_trie ''cat'' (Fin 1)) ''car'' (Fin 1)) ''cat'' \<and>
   fst (remove (insert_word (insert_word new_trie ''cat'' (Fin 1)) ''car'' (Fin 1)) ''cat'') = False \<and>
   \<not> contains (snd (remove (insert_word (insert_word new_trie ''cat'' (Fin 1)) ''car'' (Fin 1)) ''cat'')) ''cat''"
  by (simp add: contains_def remove_def insert_word_def new_trie_def new_node_def)

subsection \<open>C2: complete with k at most 0\<close>

text \<open>
  C2 says that for every prefix and every \<open>k \<le> 0\<close>, negative \<open>k\<close> included,
  \<^verbatim>\<open>complete(P, k)\<close> is the empty sequence. The code slices \<^verbatim>\<open>candidates[:k]\<close> with no
  guard on \<open>k\<close>, and a negative bound counts from the end: with \<^verbatim>\<open>a\<close> (weight 1.0) and
  \<^verbatim>\<open>b\<close> (weight 2.0) stored, \<^verbatim>\<open>complete("", -1)\<close> is \<^verbatim>\<open>["b"]\<close>, one word where at most
  \<open>k\<close>, that is none, may be returned.
\<close>

theorem complete_negative_k_not_empty:
  "(- 1 :: int) \<le> 0 \<and>
   complete_words (insert_word (insert_word new_trie ''a'' (Fin 1)) ''b'' (Fin 2)) [] (- 1) = [''b'']"
  by (simp add: run_defs)

subsection \<open>C3: the ranking of complete\<close>

text \<open>
  C3 as stated: in every trie state, for every prefix \<open>P\<close> and \<open>k \<ge> 0\<close>,
  \<^verbatim>\<open>complete(P, k)\<close> returns the stored words starting with \<open>P\<close> by weight descending,
  ties by word ascending, cut to the first \<open>k\<close>. It fails when a stored weight is NaN,
  which \<^verbatim>\<open>insert\<close> takes like any other float: a NaN key is neither less nor greater
  than any key, the candidate list \<^verbatim>\<open>a\<close> (1.0), \<^verbatim>\<open>b\<close> (NaN), \<^verbatim>\<open>c\<close> (2.0) counts as one
  ascending run, and the sort leaves it as it is, weight 1.0 before weight 2.0.
\<close>

theorem complete_nan_weight_counterexample:
  "wf_node (root (insert_word (insert_word (insert_word new_trie ''a'' (Fin 1)) ''b'' NaN) ''c'' (Fin 2))) \<and>
   (0 :: int) \<le> 3 \<and>
   complete_words (insert_word (insert_word (insert_word new_trie ''a'' (Fin 1)) ''b'' NaN) ''c'' (Fin 2)) [] 3
     = [''a'', ''b'', ''c''] \<and>
   weight_of (insert_word (insert_word (insert_word new_trie ''a'' (Fin 1)) ''b'' NaN) ''c'' (Fin 2)) ''a'' = Fin 1 \<and>
   weight_of (insert_word (insert_word (insert_word new_trie ''a'' (Fin 1)) ''b'' NaN) ''c'' (Fin 2)) ''c'' = Fin 2 \<and>
   \<not> sorted_wrt
       (outranks (insert_word (insert_word (insert_word new_trie ''a'' (Fin 1)) ''b'' NaN) ''c'' (Fin 2)))
       (complete_words (insert_word (insert_word (insert_word new_trie ''a'' (Fin 1)) ''b'' NaN) ''c'' (Fin 2)) [] 3)"
  by (simp add: run_defs outranks_def)

text \<open>
  C3, amended: in every trie (the keys of each \<^verbatim>\<open>children\<close> dict being unique, as they are
  in a Python dict), for every prefix \<open>P\<close> such that no stored word starting with \<open>P\<close>
  has the weight NaN, and every \<open>k \<ge> 0\<close>, \<^verbatim>\<open>complete(P, k)\<close> is the first \<open>k\<close> entries of
  a list that holds exactly the stored words starting with \<open>P\<close>, each once, in which
  every earlier word outranks every later one: greater weight first, and for equal
  weights the smaller word first. After inserting \<^verbatim>\<open>cat\<close> with 5.0, \<^verbatim>\<open>car\<close> with 5.0 and
  \<^verbatim>\<open>can\<close> with 3.0 into the empty trie, \<^verbatim>\<open>complete("ca", 2)\<close> is \<^verbatim>\<open>["car", "cat"]\<close>.
\<close>

theorem complete_ranked:
  assumes "wf_node (root t)"
    and "\<And>w. starts_with w P \<Longrightarrow> contains t w \<Longrightarrow> weight_of t w \<noteq> NaN"
    and "0 \<le> k"
  shows "complete_words t P k = take (nat k) (ranking t P) \<and>
         set (ranking t P) = {w. starts_with w P \<and> contains t w} \<and>
         distinct (ranking t P) \<and>
         sorted_wrt (outranks t) (ranking t P) \<and>
         complete_words
           (insert_word (insert_word (insert_word new_trie ''cat'' (Fin 5)) ''car'' (Fin 5)) ''can'' (Fin 3))
           ''ca'' 2 = [''car'', ''cat'']"
proof -
  have "complete_words
           (insert_word (insert_word (insert_word new_trie ''cat'' (Fin 5)) ''car'' (Fin 5)) ''can'' (Fin 3))
           ''ca'' 2 = [''car'', ''cat'']"
    by (simp add: run_defs)
  moreover have "sorted_wrt (outranks t) (ranking t P)"
    using assms(1,2) by (rule ranking_sorted)
  ultimately show ?thesis
    using assms(1,3) by (simp add: complete_words_take ranking_set ranking_distinct)
qed

theorem complete_ranked_witness:
  "wf_node (root (insert_word (insert_word (insert_word new_trie ''cat'' (Fin 5)) ''car'' (Fin 5)) ''can'' (Fin 3))) \<and>
   set (ranking (insert_word (insert_word (insert_word new_trie ''cat'' (Fin 5)) ''car'' (Fin 5)) ''can'' (Fin 3)) ''ca'') =
     {w. starts_with w ''ca'' \<and>
         contains (insert_word (insert_word (insert_word new_trie ''cat'' (Fin 5)) ''car'' (Fin 5)) ''can'' (Fin 3)) w} \<and>
   weight_of (insert_word (insert_word (insert_word new_trie ''cat'' (Fin 5)) ''car'' (Fin 5)) ''can'' (Fin 3)) ''car'' = Fin 5 \<and>
   weight_of (insert_word (insert_word (insert_word new_trie ''cat'' (Fin 5)) ''car'' (Fin 5)) ''can'' (Fin 3)) ''cat'' = Fin 5 \<and>
   weight_of (insert_word (insert_word (insert_word new_trie ''cat'' (Fin 5)) ''car'' (Fin 5)) ''can'' (Fin 3)) ''can'' = Fin 3 \<and>
   (0 :: int) \<le> 2 \<and>
   complete_words (insert_word (insert_word (insert_word new_trie ''cat'' (Fin 5)) ''car'' (Fin 5)) ''can'' (Fin 3)) ''ca'' 2 =
     take (nat 2) (ranking (insert_word (insert_word (insert_word new_trie ''cat'' (Fin 5)) ''car'' (Fin 5)) ''can'' (Fin 3)) ''ca'') \<and>
   ranking (insert_word (insert_word (insert_word new_trie ''cat'' (Fin 5)) ''car'' (Fin 5)) ''can'' (Fin 3)) ''ca'' =
     [''car'', ''cat'', ''can''] \<and>
   sorted_wrt (outranks (insert_word (insert_word (insert_word new_trie ''cat'' (Fin 5)) ''car'' (Fin 5)) ''can'' (Fin 3)))
     [''car'', ''cat'', ''can'']"
proof -
  define T where
    "T = insert_word (insert_word (insert_word new_trie ''cat'' (Fin 5)) ''car'' (Fin 5)) ''can'' (Fin 3)"
  have w: "wf_node (root T)"
    by (simp add: T_def run_defs)
  have r: "ranking T ''ca'' = [''car'', ''cat'', ''can'']"
    by (simp add: T_def run_defs)
  have "{w. starts_with w ''ca'' \<and> contains T w} = set [''car'', ''cat'', ''can'']"
    using ranking_set [of T "''ca''"] r by simp
  moreover have "\<forall>w\<in>set [''car'', ''cat'', ''can'']. weight_of T w \<noteq> NaN"
    by (simp add: T_def run_defs)
  ultimately have n: "\<And>w. starts_with w ''ca'' \<Longrightarrow> contains T w \<Longrightarrow> weight_of T w \<noteq> NaN"
    by blast
  have "complete_words T ''ca'' 2 = take (nat 2) (ranking T ''ca'') \<and>
        set (ranking T ''ca'') = {w. starts_with w ''ca'' \<and> contains T w} \<and>
        distinct (ranking T ''ca'') \<and>
        sorted_wrt (outranks T) (ranking T ''ca'') \<and>
        complete_words
          (insert_word (insert_word (insert_word new_trie ''cat'' (Fin 5)) ''car'' (Fin 5)) ''can'' (Fin 3))
          ''ca'' 2 = [''car'', ''cat'']"
  proof (rule complete_ranked)
    show "wf_node (root T)"
      by (rule w)
    show "weight_of T w \<noteq> NaN" if "starts_with w ''ca''" "contains T w" for w
      using that by (rule n)
    show "(0 :: int) \<le> 2"
      by simp
  qed
  moreover have "weight_of T ''car'' = Fin 5" "weight_of T ''cat'' = Fin 5" "weight_of T ''can'' = Fin 3"
    by (simp_all add: T_def run_defs)
  ultimately show ?thesis
    using w r unfolding T_def by simp
qed

subsection \<open>C4: insert\<close>

text \<open>
  C4: after \<^verbatim>\<open>insert(W, F)\<close> the word \<open>W\<close> is contained, its stored weight is \<open>F\<close>
  (whatever it was before), and the word count of \<^verbatim>\<open>stats()\<close> has grown by 1 if \<open>W\<close>
  was absent and by 0 if it was present.
\<close>

theorem insert_then_contains:
  "contains (insert_word t W F) W \<and> weight_of (insert_word t W F) W = F \<and>
   fst (stats (insert_word t W F)) = fst (stats t) + (if contains t W then 0 else 1)"
  by (simp add: contains_insert weight_insert words_insert stats_def)

subsection \<open>C5: the invariants of reachable states\<close>

text \<open>
  C5: in every state reachable from the empty trie by inserts and removes, every node
  reachable from the root by a non-empty path is a word or has a child; the node
  count is the number of reachable nodes (one per path that resolves, the empty path
  being the root); the word count is the number of reachable word nodes.
\<close>

theorem reachable_invariants:
  assumes "reachable t"
  shows "(\<forall>p n. p \<noteq> [] \<and> find_node (root t) p = Some n \<longrightarrow> is_word n \<or> children n \<noteq> []) \<and>
         finite {p. find_node (root t) p \<noteq> None} \<and>
         nodes t = int (card {p. find_node (root t) p \<noteq> None}) \<and>
         words t = int (card {p. \<exists>n. find_node (root t) p = Some n \<and> is_word n}) \<and>
         stats t = (int (card {p. \<exists>n. find_node (root t) p = Some n \<and> is_word n}),
                    get_height (root t),
                    int (card {p. find_node (root t) p \<noteq> None}))"
proof -
  have inv: "wf_node (root t)" "no_dead (root t)"
    "nodes t = int (count_nodes (root t))" "words t = int (count_words (root t))"
    using reachable_inv [OF assms] by (simp_all add: trie_inv_def)
  have "{p. \<exists>n. find_node (root t) p = Some n \<and> is_word n} = {p. contains_from (root t) p}"
    by (auto simp: contains_from_find split: option.splits)
  then have w: "words t = int (card {p. \<exists>n. find_node (root t) p = Some n \<and> is_word n})"
    using card_word_paths [OF inv(1)] inv(4) by simp
  have n: "finite {p. find_node (root t) p \<noteq> None}"
    "nodes t = int (card {p. find_node (root t) p \<noteq> None})"
    using card_paths [OF inv(1)] inv(3) by simp_all
  have d: "\<forall>p n. p \<noteq> [] \<and> find_node (root t) p = Some n \<longrightarrow> is_word n \<or> children n \<noteq> []"
    using no_dead_path [OF inv(2)] by blast
  show ?thesis
    using d n w by (simp add: stats_def)
qed

theorem reachable_invariants_witness:
  "reachable (snd (remove (insert_word (insert_word new_trie ''cat'' (Fin 5)) ''car'' (Fin 4)) ''cat'')) \<and>
   find_node (root (snd (remove (insert_word (insert_word new_trie ''cat'' (Fin 5)) ''car'' (Fin 4)) ''cat''))) ''car''
     = Some (TrieNode [] True (Fin 4)) \<and>
   nodes (snd (remove (insert_word (insert_word new_trie ''cat'' (Fin 5)) ''car'' (Fin 4)) ''cat'')) = 4 \<and>
   words (snd (remove (insert_word (insert_word new_trie ''cat'' (Fin 5)) ''car'' (Fin 4)) ''cat'')) = 1 \<and>
   int (card {p. find_node
       (root (snd (remove (insert_word (insert_word new_trie ''cat'' (Fin 5)) ''car'' (Fin 4)) ''cat''))) p \<noteq> None}) = 4"
proof -
  have r: "reachable (snd (remove (insert_word (insert_word new_trie ''cat'' (Fin 5)) ''car'' (Fin 4)) ''cat''))"
    by (intro reachable.intros)
  have e: "snd (remove (insert_word (insert_word new_trie ''cat'' (Fin 5)) ''car'' (Fin 4)) ''cat'') =
      \<lparr>root = TrieNode [(CHR ''c'', TrieNode [(CHR ''a'', TrieNode [(CHR ''r'', TrieNode [] True (Fin 4))] False (Fin 0))] False (Fin 0))] False (Fin 0),
       words = 1, nodes = 4\<rparr>"
    by (simp add: remove_def insert_word_def new_trie_def new_node_def)
  show ?thesis
    using r reachable_invariants [OF r] unfolding e by simp
qed

subsection \<open>C6: remove leaves the other words alone\<close>

text \<open>
  C6: after inserting \<^verbatim>\<open>cat\<close> and then \<^verbatim>\<open>car\<close> into any trie and removing \<^verbatim>\<open>cat\<close>,
  \<^verbatim>\<open>car\<close> is contained, \<^verbatim>\<open>cat\<close> is not, and the nodes of the shared path \<^verbatim>\<open>c\<close>,
  \<^verbatim>\<open>ca\<close> are still there. In general, removing \<open>W\<close> changes neither the membership
  of another word \<open>W'\<close> nor, if \<open>W'\<close> is stored, its weight.
\<close>

theorem remove_keeps_other_words:
  "contains (snd (remove (insert_word (insert_word t ''cat'' f1) ''car'' f2) ''cat'')) ''car'' \<and>
   \<not> contains (snd (remove (insert_word (insert_word t ''cat'' f1) ''car'' f2) ''cat'')) ''cat'' \<and>
   find_node (root (snd (remove (insert_word (insert_word t ''cat'' f1) ''car'' f2) ''cat''))) ''c'' \<noteq> None \<and>
   find_node (root (snd (remove (insert_word (insert_word t ''cat'' f1) ''car'' f2) ''cat''))) ''ca'' \<noteq> None \<and>
   (W' \<noteq> W \<longrightarrow>
      contains (snd (remove s W)) W' = contains s W' \<and>
      (contains s W' \<longrightarrow> weight_of (snd (remove s W)) W' = weight_of s W'))"
proof -
  define u where "u = snd (remove (insert_word (insert_word t ''cat'' f1) ''car'' f2) ''cat'')"
  have car: "contains u ''car''"
    unfolding u_def by (simp add: remove_other(1) contains_insert)
  then obtain n where n: "find_node (root u) ''car'' = Some n"
    using contains_find by blast
  have "find_node (root u) (''c'' @ ''ar'') = Some n" "find_node (root u) (''ca'' @ ''r'') = Some n"
    using n by simp_all
  then have path: "find_node (root u) ''c'' \<noteq> None" "find_node (root u) ''ca'' \<noteq> None"
    by (blast dest: find_node_prefix)+
  have cat: "\<not> contains u ''cat''"
    unfolding u_def by (rule not_contains_remove)
  show ?thesis
    using car cat path remove_other [of W' W s] unfolding u_def by blast
qed

theorem remove_keeps_other_words_witness:
  "''car'' \<noteq> ''cat'' \<and>
   contains (insert_word (insert_word new_trie ''cat'' (Fin 5)) ''car'' (Fin 4)) ''car'' \<and>
   contains (snd (remove (insert_word (insert_word new_trie ''cat'' (Fin 5)) ''car'' (Fin 4)) ''cat'')) ''car'' \<and>
   weight_of (snd (remove (insert_word (insert_word new_trie ''cat'' (Fin 5)) ''car'' (Fin 4)) ''cat'')) ''car'' = Fin 4"
  using remove_keeps_other_words [of new_trie "Fin 5" "Fin 4" "''car''" "''cat''"
      "insert_word (insert_word new_trie ''cat'' (Fin 5)) ''car'' (Fin 4)"]
  by (simp add: contains_def weight_of_def insert_word_def new_trie_def new_node_def)

subsection \<open>C7: insert and remove at once\<close>

text \<open>
  C7: in a state with no dead leaves (every reachable state is one), inserting a word
  that is not stored and removing it at once brings \<^verbatim>\<open>stats()\<close> back: word count,
  node count, and height as well. The claim's further condition on shared paths is not
  needed.
\<close>

theorem insert_remove_round_trip:
  assumes "reachable S \<or> no_dead (root S)" and "\<not> contains S W"
  shows "stats (snd (remove (insert_word S W F) W)) = stats S \<and>
         words (snd (remove (insert_word S W F) W)) = words S \<and>
         nodes (snd (remove (insert_word S W F) W)) = nodes S"
proof -
  have nd: "no_dead (root S)"
    using assms(1) reachable_inv by (auto simp: trie_inv_def)
  obtain node' ws' ns' where
    i: "insert_walk (root S) W F (words S, nodes S) = (node', ws', ns')" and
    ie: "insert_word S W F = \<lparr>root = node', words = ws', nodes = ns'\<rparr>"
    by (rule insert_cases)
  obtain sd node'' ws'' ns'' where
    r: "remove_rec node' W (ws', ns') = (sd, node'', ws'', ns'')"
    by (metis prod_cases4)
  have re: "remove (insert_word S W F) W = (sd, \<lparr>root = node'', words = ws'', nodes = ns''\<rparr>)"
    using r ie by (simp add: remove_def)
  have nc: "\<not> contains_from (root S) W"
    using assms(2) by (simp add: contains_def)
  from insert_remove_restores [OF nd nc i r] show ?thesis
    using re by (simp add: stats_def)
qed

theorem insert_remove_round_trip_witness:
  "reachable (insert_word new_trie ''cat'' (Fin 5)) \<and>
   \<not> contains (insert_word new_trie ''cat'' (Fin 5)) ''car'' \<and>
   stats (insert_word new_trie ''cat'' (Fin 5)) = (1, 3, 4) \<and>
   stats (insert_word (insert_word new_trie ''cat'' (Fin 5)) ''car'' (Fin 2)) = (2, 3, 5) \<and>
   stats (snd (remove (insert_word (insert_word new_trie ''cat'' (Fin 5)) ''car'' (Fin 2)) ''car'')) = (1, 3, 4)"
proof -
  have r: "reachable (insert_word new_trie ''cat'' (Fin 5))"
    by (intro reachable.intros)
  have c: "\<not> contains (insert_word new_trie ''cat'' (Fin 5)) ''car''"
    by (simp add: contains_def insert_word_def new_trie_def new_node_def)
  have s: "stats (insert_word new_trie ''cat'' (Fin 5)) = (1, 3, 4)"
    "stats (insert_word (insert_word new_trie ''cat'' (Fin 5)) ''car'' (Fin 2)) = (2, 3, 5)"
    by (simp_all add: stats_def insert_word_def new_trie_def new_node_def get_height.simps)
  show ?thesis
    using r c s insert_remove_round_trip [of "insert_word new_trie ''cat'' (Fin 5)" "''car''" "Fin 2"]
    by simp
qed

subsection \<open>C8: removing a word that is not stored\<close>

text \<open>
  C8: if \<open>W\<close> is not stored (its path breaks, or ends in a node that is not a word),
  \<^verbatim>\<open>remove(W)\<close> returns false and the trie, counters included, is what it was.
  So a second \<^verbatim>\<open>remove(W)\<close> in a row returns false, whatever the first one did.
  In every reachable state, and after every remove from one, the node count is at least 1.
\<close>

theorem remove_absent_word:
  "(\<not> contains t W \<longrightarrow> remove t W = (False, t)) \<and>
   fst (remove (snd (remove t W)) W) = False \<and>
   (reachable s \<longrightarrow> 1 \<le> nodes s \<and> 1 \<le> nodes (snd (remove s V)))"
proof -
  have "remove (snd (remove t W)) W = (False, snd (remove t W))"
    using not_contains_remove by (rule remove_absent)
  moreover have "1 \<le> nodes s" if "reachable s" for s
    using reachable_inv [OF that] count_nodes_pos [of "root s"] by (simp add: trie_inv_def)
  ultimately show ?thesis
    using remove_absent [of t W] reach_remove [of s V] by auto
qed

theorem remove_absent_word_witness:
  "\<not> contains (insert_word new_trie ''cat'' (Fin 5)) ''ca'' \<and>
   remove (insert_word new_trie ''cat'' (Fin 5)) ''ca'' = (False, insert_word new_trie ''cat'' (Fin 5)) \<and>
   reachable (insert_word new_trie ''cat'' (Fin 5)) \<and>
   1 \<le> nodes (snd (remove (insert_word new_trie ''cat'' (Fin 5)) ''cat''))"
proof -
  have r: "reachable (insert_word new_trie ''cat'' (Fin 5))"
    by (intro reachable.intros)
  have c: "\<not> contains (insert_word new_trie ''cat'' (Fin 5)) ''ca''"
    by (simp add: contains_def insert_word_def new_trie_def new_node_def)
  show ?thesis
    using r c remove_absent_word [of "insert_word new_trie ''cat'' (Fin 5)" "''ca''"
        "insert_word new_trie ''cat'' (Fin 5)" "''cat''"]
    by simp
qed

subsection \<open>C9: height\<close>

text \<open>
  C9: the height reported by \<^verbatim>\<open>stats()\<close> is the greatest number of edges from the root
  to a reachable node: some path that resolves has that length, and no path that
  resolves is longer. The trie with only the root has height 0, and after inserting one
  word into the empty trie the height is the length of the word.
\<close>

theorem height_is_max_depth:
  "(wf_node (root t) \<longrightarrow>
      (\<exists>p. find_node (root t) p \<noteq> None \<and> int (length p) = fst (snd (stats t)))) \<and>
   (\<forall>p. find_node (root t) p \<noteq> None \<longrightarrow> int (length p) \<le> fst (snd (stats t))) \<and>
   (children (root t) = [] \<longrightarrow> fst (snd (stats t)) = 0) \<and>
   fst (snd (stats new_trie)) = 0 \<and>
   fst (snd (stats (insert_word new_trie W F))) = int (length W)"
proof -
  have a: "\<exists>p. find_node (root t) p \<noteq> None \<and> int (length p) = get_height (root t)"
    if "wf_node (root t)"
    using height_attained [OF that] by force
  have b: "int (length p) \<le> get_height (root t)" if "find_node (root t) p \<noteq> None" for p
    using that height_upper by blast
  have c: "get_height (root new_trie) = 0"
    by (simp add: new_trie_def new_node_def get_height_leaf)
  obtain node' ws' ns' where
    r: "insert_walk (root new_trie) W F (words new_trie, nodes new_trie) = (node', ws', ns')" and
    e: "insert_word new_trie W F = \<lparr>root = node', words = ws', nodes = ns'\<rparr>"
    by (rule insert_cases)
  have "get_height node' = int (length W)"
    using r by (rule height_fresh_chain [rotated]) (simp add: new_trie_def new_node_def)
  then show ?thesis
    using a b c e by (simp add: stats_def get_height_leaf)
qed

theorem height_is_max_depth_witness:
  "wf_node (root (insert_word (insert_word new_trie ''cat'' (Fin 5)) ''do'' (Fin 4))) \<and>
   find_node (root (insert_word (insert_word new_trie ''cat'' (Fin 5)) ''do'' (Fin 4))) ''cat'' \<noteq> None \<and>
   fst (snd (stats (insert_word (insert_word new_trie ''cat'' (Fin 5)) ''do'' (Fin 4)))) = 3 \<and>
   (\<exists>p. find_node (root (insert_word (insert_word new_trie ''cat'' (Fin 5)) ''do'' (Fin 4))) p \<noteq> None \<and>
      int (length p) = fst (snd (stats (insert_word (insert_word new_trie ''cat'' (Fin 5)) ''do'' (Fin 4)))))"
proof -
  have w: "wf_node (root (insert_word (insert_word new_trie ''cat'' (Fin 5)) ''do'' (Fin 4)))"
    by (simp add: insert_word_def new_trie_def new_node_def)
  have f: "find_node (root (insert_word (insert_word new_trie ''cat'' (Fin 5)) ''do'' (Fin 4))) ''cat'' \<noteq> None"
    by (simp add: insert_word_def new_trie_def new_node_def)
  have h: "fst (snd (stats (insert_word (insert_word new_trie ''cat'' (Fin 5)) ''do'' (Fin 4)))) = 3"
    by (simp add: stats_def insert_word_def new_trie_def new_node_def get_height.simps)
  show ?thesis
    using w f h height_is_max_depth [of "insert_word (insert_word new_trie ''cat'' (Fin 5)) ''do'' (Fin 4)"]
    by blast
qed

subsection \<open>C10: what complete returns\<close>

text \<open>
  C10: in every reachable state, for every prefix \<open>P\<close> and \<open>k \<ge> 0\<close>, every word returned
  by \<^verbatim>\<open>complete(P, k)\<close> starts with \<open>P\<close> and is contained, no word is returned twice, and
  the number of words returned is the minimum of \<open>k\<close> and the number of stored words
  that start with \<open>P\<close>.
\<close>

theorem complete_sound:
  assumes "reachable t" and "0 \<le> k"
  shows "(\<forall>w \<in> set (complete_words t P k). starts_with w P \<and> contains t w) \<and>
         distinct (complete_words t P k) \<and>
         int (length (complete_words t P k)) =
           min k (int (card {w. starts_with w P \<and> contains t w}))"
proof -
  have wf: "wf_node (root t)"
    using reachable_inv [OF assms(1)] by (simp add: trie_inv_def)
  have c: "complete_words t P k = take (nat k) (ranking t P)"
    using assms(2) by (rule complete_words_take)
  have d: "distinct (ranking t P)"
    using wf by (rule ranking_distinct)
  have "set (complete_words t P k) \<subseteq> set (ranking t P)"
    unfolding c by (rule set_take_subset)
  then have a: "\<forall>w \<in> set (complete_words t P k). starts_with w P \<and> contains t w"
    by (auto simp: ranking_set)
  have "card {w. starts_with w P \<and> contains t w} = length (ranking t P)"
    using d distinct_card [of "ranking t P"] by (simp add: ranking_set)
  then have l: "int (length (complete_words t P k)) =
           min k (int (card {w. starts_with w P \<and> contains t w}))"
    using assms(2) unfolding c by simp
  show ?thesis
    using a d l unfolding c by simp
qed

theorem complete_sound_witness:
  "reachable (insert_word (insert_word (insert_word new_trie ''cat'' (Fin 5)) ''car'' (Fin 5)) ''dog'' (Fin 3)) \<and>
   (0 :: int) \<le> 5 \<and>
   complete_words (insert_word (insert_word (insert_word new_trie ''cat'' (Fin 5)) ''car'' (Fin 5)) ''dog'' (Fin 3)) ''ca'' 5
     = [''car'', ''cat''] \<and>
   int (card {w. starts_with w ''ca'' \<and>
        contains (insert_word (insert_word (insert_word new_trie ''cat'' (Fin 5)) ''car'' (Fin 5)) ''dog'' (Fin 3)) w}) = 2"
proof -
  have r: "reachable (insert_word (insert_word (insert_word new_trie ''cat'' (Fin 5)) ''car'' (Fin 5)) ''dog'' (Fin 3))"
    by (intro reachable.intros)
  have c: "complete_words (insert_word (insert_word (insert_word new_trie ''cat'' (Fin 5)) ''car'' (Fin 5)) ''dog'' (Fin 3)) ''ca'' 5
     = [''car'', ''cat'']"
    by (simp add: run_defs)
  show ?thesis
    using r c complete_sound [OF r, of 5 "''ca''"] by (simp add: min_def split: if_splits)
qed

end
